theory Spec2Isabelle
  imports Main
begin

section \<open>The context tree of gopractice: data model\<close>

text \<open>
  The embedded program is the context package of the repository (the file that declares
  \<^verbatim>\<open>Context\<close>, \<^verbatim>\<open>cancelCtx\<close>, \<^verbatim>\<open>valueCtx\<close>, \<^verbatim>\<open>timerCtx\<close>).

  A Go context value is a pointer to a struct.  The fields a struct never changes after
  its construction (the embedded parent \<^verbatim>\<open>Context\<close>, \<^verbatim>\<open>key\<close>, \<^verbatim>\<open>val\<close>, \<^verbatim>\<open>deadline\<close>) are kept
  in the reference itself, a value of the datatype \<open>ctx\<close>; the fields \<^verbatim>\<open>cancelCtx\<close> mutates
  (\<^verbatim>\<open>done\<close>, \<^verbatim>\<open>children\<close>, \<^verbatim>\<open>err\<close>, and \<^verbatim>\<open>timer\<close> of a \<^verbatim>\<open>timerCtx\<close>) live in a store of
  cells, and the reference holds the address of its cell.  A \<^verbatim>\<open>*timerCtx\<close> and the pointer
  \<^verbatim>\<open>&ctx.cancelCtx\<close> to its embedded struct are the same address.

  The model is sequential: one call runs to its end before the next one starts, so
  every \<^verbatim>\<open>mu.Lock()\<close> is granted at once and the mutex is not part of a cell.
\<close>

type_synonym addr = nat

text \<open>\<^verbatim>\<open>time.Time\<close> and \<^verbatim>\<open>time.Duration\<close>, as a number of ticks.\<close>

type_synonym time = int

text \<open>
  Channels of type \<^verbatim>\<open>chan struct{}\<close>: the package-level \<^verbatim>\<open>closedchan\<close>, which \<^verbatim>\<open>init\<close>
  closes before any other code runs, and the channels that \<^verbatim>\<open>make\<close> returns.
\<close>

datatype chan = closedchan | Chan nat

text \<open>Values of the Go type \<^verbatim>\<open>error\<close>; the nil error is \<open>None\<close> of \<open>cause option\<close>.\<close>

datatype cause = Canceled | DeadlineExceeded | OtherError nat

text \<open>
  Keys are values of type \<^verbatim>\<open>any\<close>: nil, the pointer \<^verbatim>\<open>&cancelCtxKey\<close>, a value of a
  comparable dynamic type, or a value of a dynamic type that is not comparable.  Go's
  \<^verbatim>\<open>==\<close> on two keys is the equality of this type, except that it panics on two values
  of the same type that is not comparable; \<^verbatim>\<open>WithValue\<close> lets no such key into a
  \<^verbatim>\<open>valueCtx\<close>, so on the chains it builds no comparison panics.
\<close>

datatype key = KNil | cancelCtxKeyAddr | KComparable nat | KUncomparable nat

text \<open>
  Values of type \<^verbatim>\<open>any\<close> that \<^verbatim>\<open>Value\<close> returns: nil, a \<^verbatim>\<open>*cancelCtx\<close> (the address of
  its cell), or any other value.
\<close>

datatype val = VNil | VCancelCtx addr | VAny nat

text \<open>
  The implementations of \<^verbatim>\<open>Context\<close>.  \<open>otherCtx\<close> is an implementation from outside
  the package (the \<^verbatim>\<open>default\<close> branch of \<^verbatim>\<open>value\<close>), given by what its four methods
  answer: \<^verbatim>\<open>Deadline\<close>, \<^verbatim>\<open>Done\<close>, \<^verbatim>\<open>Err\<close> and the table of \<^verbatim>\<open>Value\<close>.
\<close>

datatype ctx =
    emptyCtx
  | valueCtx ctx key val
  | cancelCtx ctx addr
  | timerCtx ctx addr time
  | otherCtx "time option" "chan option" "cause option" "(key \<times> val) list"

subsection \<open>Deadline\<close>

text \<open>
  \<^verbatim>\<open>emptyCtx.Deadline\<close> returns the zero values; \<^verbatim>\<open>timerCtx.Deadline\<close> returns
  \<^verbatim>\<open>c.deadline, true\<close>.  \<^verbatim>\<open>valueCtx\<close> and \<^verbatim>\<open>cancelCtx\<close> declare no \<^verbatim>\<open>Deadline\<close>: the method
  is promoted from the embedded \<^verbatim>\<open>Context\<close>, the parent.  \<open>None\<close> is \<^verbatim>\<open>ok = false\<close>.
\<close>

fun Deadline :: "ctx \<Rightarrow> time option" where
  "Deadline emptyCtx = None"
| "Deadline (valueCtx parent k v) = Deadline parent"
| "Deadline (cancelCtx parent a) = Deadline parent"
| "Deadline (timerCtx parent a d) = Some d"
| "Deadline (otherCtx dl dn er vs) = dl"

subsection \<open>Value\<close>

text \<open>The method \<^verbatim>\<open>Value\<close> of a context from outside the package.\<close>

definition otherCtx_Value :: "(key \<times> val) list \<Rightarrow> key \<Rightarrow> val" where
  "otherCtx_Value vs k = (case map_of vs k of None \<Rightarrow> VNil | Some v \<Rightarrow> v)"

text \<open>The loop of the function \<^verbatim>\<open>value\<close>, one equation for each case of its type switch.\<close>

fun value_walk :: "ctx \<Rightarrow> key \<Rightarrow> val" where
  "value_walk (valueCtx parent k v) key = (if key = k then v else value_walk parent key)"
| "value_walk (cancelCtx parent a) key =
     (if key = cancelCtxKeyAddr then VCancelCtx a else value_walk parent key)"
| "value_walk (timerCtx parent a d) key =
     (if key = cancelCtxKeyAddr then VCancelCtx a else value_walk parent key)"
| "value_walk emptyCtx key = VNil"
| "value_walk (otherCtx dl dn er vs) key = otherCtx_Value vs key"

text \<open>
  The method \<^verbatim>\<open>Value\<close>: \<^verbatim>\<open>emptyCtx.Value\<close>, \<^verbatim>\<open>valueCtx.Value\<close>, \<^verbatim>\<open>cancelCtx.Value\<close>
  (which \<^verbatim>\<open>timerCtx\<close> inherits from its embedded \<^verbatim>\<open>cancelCtx\<close>).
\<close>

fun Value :: "ctx \<Rightarrow> key \<Rightarrow> val" where
  "Value emptyCtx key = VNil"
| "Value (valueCtx parent k v) key = (if k = key then v else value_walk parent key)"
| "Value (cancelCtx parent a) key =
     (if key = cancelCtxKeyAddr then VCancelCtx a else value_walk parent key)"
| "Value (timerCtx parent a d) key =
     (if key = cancelCtxKeyAddr then VCancelCtx a else value_walk parent key)"
| "Value (otherCtx dl dn er vs) key = otherCtx_Value vs key"

subsection \<open>Panics\<close>

text \<open>
  What stops a call without a result: a Go panic with its message, the use of an address
  that no cell has (a reference no Go program can hold), a child that is no
  \<^verbatim>\<open>canceler\<close>, and the exhaustion of the recursion budget of \<open>cancel_fuel\<close> below.
\<close>

datatype fault = Panic string | InvalidRef | NotCanceler | OutOfFuel

subsection \<open>WithValue\<close>

text \<open>
  Modelled from the spec: the package \<^verbatim>\<open>reflectlite\<close> is not among the sources.
  \<^verbatim>\<open>reflectlite.TypeOf(key).Comparable()\<close> tells whether the dynamic type of the key
  supports \<^verbatim>\<open>==\<close>; it is called on a key that is not nil.
\<close>

fun Comparable :: "key \<Rightarrow> bool" where
  "Comparable (KUncomparable n) = False"
| "Comparable k = True"

text \<open>A parent of type \<^verbatim>\<open>Context\<close> is an interface value: \<open>None\<close> is the nil interface.\<close>

definition WithValue :: "ctx option \<Rightarrow> key \<Rightarrow> val \<Rightarrow> fault + ctx" where
  "WithValue parent key v =
     (case parent of
        None \<Rightarrow> Inl (Panic ''cannot create context from nil parent'')
      | Some p \<Rightarrow>
          if key = KNil then Inl (Panic ''nil key'')
          else if \<not> Comparable key then Inl (Panic ''key is not comparable'')
          else Inr (valueCtx p key v))"

text \<open>
  A chain of value-binding nodes built by \<^verbatim>\<open>WithValue\<close> over a context, the nearest
  binding first: \<open>with_values base [(k1, v1), (k2, v2)]\<close> is
  \<^verbatim>\<open>WithValue(WithValue(base, k2, v2), k1, v1)\<close>.
\<close>

fun with_values :: "ctx \<Rightarrow> (key \<times> val) list \<Rightarrow> fault + ctx" where
  "with_values base [] = Inr base"
| "with_values base ((k, v) # kvs) =
     (case with_values base kvs of
        Inl f \<Rightarrow> Inl f
      | Inr parent \<Rightarrow> WithValue (Some parent) k v)"

text \<open>The nodes on the path from a context to the root, the context itself first.\<close>

fun path_to_root :: "ctx \<Rightarrow> ctx list" where
  "path_to_root emptyCtx = [emptyCtx]"
| "path_to_root (valueCtx parent k v) = valueCtx parent k v # path_to_root parent"
| "path_to_root (cancelCtx parent a) = cancelCtx parent a # path_to_root parent"
| "path_to_root (timerCtx parent a d) = timerCtx parent a d # path_to_root parent"
| "path_to_root (otherCtx dl dn er vs) = [otherCtx dl dn er vs]"

fun is_timerCtx :: "ctx \<Rightarrow> bool" where
  "is_timerCtx (timerCtx parent a d) = True"
| "is_timerCtx c = False"

section \<open>The store of cancelable nodes\<close>

text \<open>
  A \<^verbatim>\<open>CancelFunc\<close> is a closure \<^verbatim>\<open>func() { c.cancel(removeFromParent, err) }\<close>; it is
  kept as the three values it closes over.
\<close>

datatype CancelFunc = CancelFunc ctx bool cause

text \<open>
  The mutable fields of a \<^verbatim>\<open>cancelCtx\<close>, and \<^verbatim>\<open>timer\<close> of a \<^verbatim>\<open>timerCtx\<close> (nil in a plain
  \<^verbatim>\<open>cancelCtx\<close>).  \<^verbatim>\<open>done\<close> holds a channel or nothing; \<^verbatim>\<open>children\<close> is a map used as
  a set, nil or a set of \<^verbatim>\<open>canceler\<close> references; the order of the list is the order
  in which \<^verbatim>\<open>range\<close> visits the map, which Go leaves open.
\<close>

record cell =
  done_ch :: "chan option"
  children :: "ctx list option"
  err :: "cause option"
  timer :: "nat option"

text \<open>A \<^verbatim>\<open>time.Timer\<close> made by \<^verbatim>\<open>time.AfterFunc\<close>: active until it fires or is stopped.\<close>

record tmr =
  dur :: time
  callback :: CancelFunc
  active :: bool

text \<open>
  The state of the package: the cells, the channels made by \<^verbatim>\<open>make\<close> that have been
  closed, the next channel \<^verbatim>\<open>make\<close> returns, the timers, the counter \<^verbatim>\<open>goroutines\<close>, and
  the goroutines \<^verbatim>\<open>propagateCancel\<close> has started (each waits on its parent and child; the
  constructors record that they were started, and what a goroutine does when its parent
  is done is the step \<open>wake\<close> of \<open>reached\<close> below).
\<close>

record state =
  cells :: "cell list"
  closed_chans :: "nat set"
  nextchan :: nat
  timers :: "tmr list"
  goroutines :: int
  waiters :: "(ctx \<times> ctx) list"

definition upd_cell :: "addr \<Rightarrow> (cell \<Rightarrow> cell) \<Rightarrow> state \<Rightarrow> state" where
  "upd_cell a f s = s\<lparr>cells := (cells s)[a := f (cells s ! a)]\<rparr>"

definition child_list :: "cell \<Rightarrow> ctx list" where
  "child_list c = (case children c of None \<Rightarrow> [] | Some cs \<Rightarrow> cs)"

text \<open>The zero value of the mutable fields, as \<^verbatim>\<open>newCancelCtx\<close> leaves them.\<close>

definition new_cell :: cell where
  "new_cell = \<lparr>done_ch = None, children = None, err = None, timer = None\<rparr>"

subsection \<open>Channels\<close>

text \<open>
  No value is ever sent on a done channel, so a receive from it succeeds exactly when
  the channel is closed.  Closing a closed channel panics.
\<close>

fun is_closed :: "state \<Rightarrow> chan \<Rightarrow> bool" where
  "is_closed s closedchan = True"
| "is_closed s (Chan n) = (n \<in> closed_chans s)"

fun close_chan :: "state \<Rightarrow> chan \<Rightarrow> fault + state" where
  "close_chan s closedchan = Inl (Panic ''close of closed channel'')"
| "close_chan s (Chan n) =
     (if n \<in> closed_chans s then Inl (Panic ''close of closed channel'')
      else Inr (s\<lparr>closed_chans := insert n (closed_chans s)\<rparr>))"

subsection \<open>Done and Err\<close>

text \<open>
  \<^verbatim>\<open>cancelCtx.Done\<close>: the channel stored in \<^verbatim>\<open>done\<close>, made and stored first when there is
  none.
\<close>

definition cancelCtx_Done :: "state \<Rightarrow> addr \<Rightarrow> fault + (state \<times> chan option)" where
  "cancelCtx_Done s a =
     (if \<not> a < length (cells s) then Inl InvalidRef
      else case done_ch (cells s ! a) of
             Some d \<Rightarrow> Inr (s, Some d)
           | None \<Rightarrow>
               let d = Chan (nextchan s)
               in Inr (upd_cell a (\<lambda>c. c\<lparr>done_ch := Some d\<rparr>) (s\<lparr>nextchan := Suc (nextchan s)\<rparr>),
                       Some d))"

text \<open>
  The method \<^verbatim>\<open>Done\<close>.  \<^verbatim>\<open>valueCtx\<close> takes it from its embedded parent, \<^verbatim>\<open>timerCtx\<close> from
  its embedded \<^verbatim>\<open>cancelCtx\<close>.  \<open>None\<close> is the nil channel.
\<close>

fun Done :: "state \<Rightarrow> ctx \<Rightarrow> fault + (state \<times> chan option)" where
  "Done s emptyCtx = Inr (s, None)"
| "Done s (valueCtx parent k v) = Done s parent"
| "Done s (cancelCtx parent a) = cancelCtx_Done s a"
| "Done s (timerCtx parent a d) = cancelCtx_Done s a"
| "Done s (otherCtx dl dn er vs) = Inr (s, dn)"

fun Err :: "state \<Rightarrow> ctx \<Rightarrow> fault + cause option" where
  "Err s emptyCtx = Inr None"
| "Err s (valueCtx parent k v) = Err s parent"
| "Err s (cancelCtx parent a) =
     (if \<not> a < length (cells s) then Inl InvalidRef else Inr (err (cells s ! a)))"
| "Err s (timerCtx parent a d) =
     (if \<not> a < length (cells s) then Inl InvalidRef else Inr (err (cells s ! a)))"
| "Err s (otherCtx dl dn er vs) = Inr er"

subsection \<open>parentCancelCtx and removeChild\<close>

definition parentCancelCtx :: "state \<Rightarrow> ctx \<Rightarrow> fault + (state \<times> addr option)" where
  "parentCancelCtx s parent =
     (case Done s parent of
        Inl f \<Rightarrow> Inl f
      | Inr (s1, done) \<Rightarrow>
          if done = Some closedchan \<or> done = None then Inr (s1, None)
          else (case Value parent cancelCtxKeyAddr of
                  VCancelCtx p \<Rightarrow>
                    if \<not> p < length (cells s1) then Inl InvalidRef
                    else if done_ch (cells s1 ! p) \<noteq> done then Inr (s1, None)
                    else Inr (s1, Some p)
                | VNil \<Rightarrow> Inr (s1, None)
                | VAny n \<Rightarrow> Inr (s1, None)))"

definition removeChild :: "state \<Rightarrow> ctx \<Rightarrow> ctx \<Rightarrow> fault + state" where
  "removeChild s parent child =
     (case parentCancelCtx s parent of
        Inl f \<Rightarrow> Inl f
      | Inr (s1, None) \<Rightarrow> Inr s1
      | Inr (s1, Some p) \<Rightarrow>
          Inr (upd_cell p
                 (\<lambda>c. case children c of
                        None \<Rightarrow> c
                      | Some cs \<Rightarrow> c\<lparr>children := Some (removeAll child cs)\<rparr>) s1))"

subsection \<open>cancel\<close>

text \<open>
  The step of \<^verbatim>\<open>cancelCtx.cancel\<close> that signals: when \<^verbatim>\<open>done\<close> holds no channel, store
  \<^verbatim>\<open>closedchan\<close>; otherwise close the channel it holds.
\<close>

definition signal_done :: "state \<Rightarrow> addr \<Rightarrow> fault + state" where
  "signal_done s a =
     (case done_ch (cells s ! a) of
        None \<Rightarrow> Inr (upd_cell a (\<lambda>c. c\<lparr>done_ch := Some closedchan\<rparr>) s)
      | Some d \<Rightarrow> close_chan s d)"

text \<open>The end of \<^verbatim>\<open>timerCtx.cancel\<close>: stop the timer and forget it.\<close>

definition stop_timer :: "state \<Rightarrow> addr \<Rightarrow> fault + state" where
  "stop_timer s a =
     (if \<not> a < length (cells s) then Inl InvalidRef
      else case timer (cells s ! a) of
             None \<Rightarrow> Inr s
           | Some t \<Rightarrow>
               if \<not> t < length (timers s) then Inl InvalidRef
               else Inr (upd_cell a (\<lambda>c. c\<lparr>timer := None\<rparr>)
                           (s\<lparr>timers := (timers s)[t := (timers s ! t)\<lparr>active := False\<rparr>]\<rparr>)))"

text \<open>
  \<open>cancel_fuel\<close> is the call \<^verbatim>\<open>c.cancel(removeFromParent, err)\<close> on a \<^verbatim>\<open>canceler\<close>,
  dispatched on the type of \<open>c\<close>; \<open>cancelCtx_cancel\<close> is \<^verbatim>\<open>cancelCtx.cancel\<close> on the cell at
  an address, with the parent of the receiver; \<open>cancel_children\<close> is its loop over
  \<^verbatim>\<open>c.children\<close>.  The first argument bounds the depth of the recursion through the
  children; \<open>cancel\<close> below supplies a bound that is always enough.
\<close>

fun cancel_fuel :: "nat \<Rightarrow> state \<Rightarrow> ctx \<Rightarrow> bool \<Rightarrow> cause option \<Rightarrow> fault + state"
  and cancelCtx_cancel ::
    "nat \<Rightarrow> state \<Rightarrow> ctx \<Rightarrow> addr \<Rightarrow> bool \<Rightarrow> cause option \<Rightarrow> fault + state"
  and cancel_children :: "nat \<Rightarrow> state \<Rightarrow> ctx list \<Rightarrow> cause option \<Rightarrow> fault + state"
where
  "cancel_fuel 0 s c rm e = Inl OutOfFuel"
| "cancel_fuel (Suc n) s (cancelCtx parent a) rm e = cancelCtx_cancel n s parent a rm e"
| "cancel_fuel (Suc n) s (timerCtx parent a d) rm e =
     (case cancelCtx_cancel n s parent a False e of
        Inl f \<Rightarrow> Inl f
      | Inr s1 \<Rightarrow>
          (case (if rm then removeChild s1 parent (timerCtx parent a d) else Inr s1) of
             Inl f \<Rightarrow> Inl f
           | Inr s2 \<Rightarrow> stop_timer s2 a))"
| "cancel_fuel (Suc n) s emptyCtx rm e = Inl NotCanceler"
| "cancel_fuel (Suc n) s (valueCtx parent k v) rm e = Inl NotCanceler"
| "cancel_fuel (Suc n) s (otherCtx dl dn er vs) rm e = Inl NotCanceler"
| "cancelCtx_cancel n s parent a rm e =
     (if e = None then Inl (Panic ''context: internal error: missing cancel error'')
      else if \<not> a < length (cells s) then Inl InvalidRef
      else if err (cells s ! a) \<noteq> None then Inr s
      else
        (case signal_done (upd_cell a (\<lambda>c. c\<lparr>err := e\<rparr>) s) a of
           Inl f \<Rightarrow> Inl f
         | Inr s1 \<Rightarrow>
             (case cancel_children n s1 (child_list (cells s1 ! a)) e of
                Inl f \<Rightarrow> Inl f
              | Inr s2 \<Rightarrow>
                  if rm then removeChild (upd_cell a (\<lambda>c. c\<lparr>children := None\<rparr>) s2)
                               parent (cancelCtx parent a)
                  else Inr (upd_cell a (\<lambda>c. c\<lparr>children := None\<rparr>) s2))))"
| "cancel_children n s [] e = Inr s"
| "cancel_children n s (child # rest) e =
     (case cancel_fuel n s child False e of
        Inl f \<Rightarrow> Inl f
      | Inr s1 \<Rightarrow> cancel_children n s1 rest e)"

text \<open>
  Each nested call that passes the test \<^verbatim>\<open>c.err != nil\<close> has set the error of one more
  cell, so the depth never exceeds the number of cells by more than one.
\<close>

definition cancel :: "state \<Rightarrow> ctx \<Rightarrow> bool \<Rightarrow> cause option \<Rightarrow> fault + state" where
  "cancel s c rm e = cancel_fuel (Suc (length (cells s))) s c rm e"

fun call_CancelFunc :: "state \<Rightarrow> CancelFunc \<Rightarrow> fault + state" where
  "call_CancelFunc s (CancelFunc c rm e) = cancel s c rm (Some e)"

text \<open>The runtime runs the function of a timer that is still active when its time comes.\<close>

definition timer_fires :: "state \<Rightarrow> nat \<Rightarrow> fault + state" where
  "timer_fires s t =
     (if \<not> t < length (timers s) then Inl InvalidRef
      else if \<not> active (timers s ! t) then Inr s
      else call_CancelFunc (s\<lparr>timers := (timers s)[t := (timers s ! t)\<lparr>active := False\<rparr>]\<rparr>)
             (callback (timers s ! t)))"

subsection \<open>propagateCancel and the constructors\<close>

definition propagateCancel :: "state \<Rightarrow> ctx \<Rightarrow> ctx \<Rightarrow> fault + state" where
  "propagateCancel s parent child =
     (case Done s parent of
        Inl f \<Rightarrow> Inl f
      | Inr (s1, done) \<Rightarrow>
          (case done of
             None \<Rightarrow> Inr s1
           | Some d \<Rightarrow>
               if is_closed s1 d then
                 (case Err s1 parent of
                    Inl f \<Rightarrow> Inl f
                  | Inr e \<Rightarrow> cancel s1 child False e)
               else
                 (case parentCancelCtx s1 parent of
                    Inl f \<Rightarrow> Inl f
                  | Inr (s2, Some p) \<Rightarrow>
                      if err (cells s2 ! p) \<noteq> None then cancel s2 child False (err (cells s2 ! p))
                      else Inr (upd_cell p
                                  (\<lambda>c. c\<lparr>children := Some (List.insert child (child_list c))\<rparr>) s2)
                  | Inr (s2, None) \<Rightarrow>
                      Inr (s2\<lparr>goroutines := goroutines s2 + 1,
                              waiters := (parent, child) # waiters s2\<rparr>))))"

text \<open>
  \<^verbatim>\<open>c := newCancelCtx(parent)\<close> and \<^verbatim>\<open>c := &timerCtx{cancelCtx: newCancelCtx(parent), ...}\<close>
  allocate a struct: one more cell, at the address that follows the last one.
\<close>

definition alloc_cell :: "state \<Rightarrow> state" where
  "alloc_cell s = s\<lparr>cells := cells s @ [new_cell]\<rparr>"

definition WithCancel :: "state \<Rightarrow> ctx option \<Rightarrow> fault + (state \<times> ctx \<times> CancelFunc)" where
  "WithCancel s parent =
     (case parent of
        None \<Rightarrow> Inl (Panic ''cannot create context from nil parent'')
      | Some p \<Rightarrow>
          let c = cancelCtx p (length (cells s));
              s1 = alloc_cell s
          in (case propagateCancel s1 p c of
                Inl f \<Rightarrow> Inl f
              | Inr s2 \<Rightarrow> Inr (s2, c, CancelFunc c True Canceled)))"

text \<open>
  \<open>now\<close> is what the clock shows when \<^verbatim>\<open>time.Until(d)\<close> reads it; \<^verbatim>\<open>cur.Before(d)\<close> is
  \<open>cur < d\<close>.
\<close>

definition WithDeadline ::
  "state \<Rightarrow> time \<Rightarrow> ctx option \<Rightarrow> time \<Rightarrow> fault + (state \<times> ctx \<times> CancelFunc)" where
  "WithDeadline s now parent d =
     (case parent of
        None \<Rightarrow> Inl (Panic ''cannot create context from nil parent'')
      | Some p \<Rightarrow>
          if (case Deadline p of None \<Rightarrow> False | Some cur \<Rightarrow> cur < d) then WithCancel s parent
          else
            let a = length (cells s);
                c = timerCtx p a d;
                s1 = alloc_cell s
            in (case propagateCancel s1 p c of
                 Inl f \<Rightarrow> Inl f
               | Inr s2 \<Rightarrow>
                   let dur = d - now
                   in if dur \<le> 0 then
                        (case cancel s2 c True (Some DeadlineExceeded) of
                           Inl f \<Rightarrow> Inl f
                         | Inr s3 \<Rightarrow> Inr (s3, c, CancelFunc c False Canceled))
                      else if err (cells s2 ! a) = None then
                        Inr (upd_cell a (\<lambda>x. x\<lparr>timer := Some (length (timers s2))\<rparr>)
                               (s2\<lparr>timers := timers s2 @
                                     [\<lparr>dur = dur, callback = CancelFunc c True DeadlineExceeded,
                                       active = True\<rparr>]\<rparr>),
                             c, CancelFunc c True Canceled)
                      else Inr (s2, c, CancelFunc c True Canceled)))"

text \<open>\<open>now0\<close> is the reading of \<^verbatim>\<open>time.Now()\<close>, \<open>now\<close> the later one of \<^verbatim>\<open>time.Until\<close>.\<close>

definition WithTimeout ::
  "state \<Rightarrow> time \<Rightarrow> time \<Rightarrow> ctx option \<Rightarrow> time \<Rightarrow> fault + (state \<times> ctx \<times> CancelFunc)" where
  "WithTimeout s now0 now parent timeout = WithDeadline s now parent (now0 + timeout)"

fun is_otherCtx :: "ctx \<Rightarrow> bool" where
  "is_otherCtx (otherCtx dl dn er vs) = True"
| "is_otherCtx c = False"

subsection \<open>A parent that is canceled when a child is linked to it\<close>

text \<open>
  The two tests of \<^verbatim>\<open>propagateCancel\<close> that make it cancel the child at once, and the error
  it passes: \<^verbatim>\<open>parent.Err()\<close> when a receive from \<^verbatim>\<open>parent.Done()\<close> succeeds, and \<^verbatim>\<open>p.err\<close>
  when \<^verbatim>\<open>parentCancelCtx\<close> finds \<open>p\<close> and \<^verbatim>\<open>p.err\<close> is not nil.  \<open>None\<close> when neither test
  succeeds.
\<close>

definition canceled_cause :: "state \<Rightarrow> ctx \<Rightarrow> cause option" where
  "canceled_cause s parent =
     (case Done s parent of
        Inl f \<Rightarrow> None
      | Inr (s1, None) \<Rightarrow> None
      | Inr (s1, Some d) \<Rightarrow>
          if is_closed s1 d then (case Err s1 parent of Inl f \<Rightarrow> None | Inr e \<Rightarrow> e)
          else (case parentCancelCtx s1 parent of
                  Inl f \<Rightarrow> None
                | Inr (s2, None) \<Rightarrow> None
                | Inr (s2, Some p) \<Rightarrow> err (cells s2 ! p)))"

text \<open>The state in which \<^verbatim>\<open>propagateCancel\<close> makes its call of \<^verbatim>\<open>child.cancel\<close>.\<close>

definition linking_state :: "state \<Rightarrow> ctx \<Rightarrow> state" where
  "linking_state s parent =
     (case Done s parent of
        Inl f \<Rightarrow> s
      | Inr (s1, None) \<Rightarrow> s1
      | Inr (s1, Some d) \<Rightarrow>
          if is_closed s1 d then s1
          else (case parentCancelCtx s1 parent of Inl f \<Rightarrow> s1 | Inr (s2, r) \<Rightarrow> s2))"

text \<open>The addresses of the cells of a context and of its ancestors.\<close>

fun addrs :: "ctx \<Rightarrow> addr set" where
  "addrs emptyCtx = {}"
| "addrs (valueCtx parent k v) = addrs parent"
| "addrs (cancelCtx parent a) = insert a (addrs parent)"
| "addrs (timerCtx parent a d) = insert a (addrs parent)"
| "addrs (otherCtx dl dn er vs) = {}"

subsection \<open>How cancel may change the state\<close>

text \<open>
  \<open>evolves e s s'\<close>: from \<open>s\<close> to \<open>s'\<close> no cell is added or removed; an error that is set
  stays, and one that is not set stays so or becomes \<open>e\<close>; a done channel that is stored
  stays; closed channels stay closed; a timer handle stays or is dropped, and in the
  second case its timer has been stopped; stopped timers stay stopped.
\<close>

definition cell_evolves :: "cause option \<Rightarrow> cell \<Rightarrow> cell \<Rightarrow> bool" where
  "cell_evolves e c c' \<longleftrightarrow>
     (err c \<noteq> None \<longrightarrow> err c' = err c)
   \<and> (err c = None \<longrightarrow> err c' = None \<or> err c' = e)
   \<and> (done_ch c \<noteq> None \<longrightarrow> done_ch c' = done_ch c)
   \<and> (timer c' = timer c \<or> timer c' = None)"

definition evolves :: "cause option \<Rightarrow> state \<Rightarrow> state \<Rightarrow> bool" where
  "evolves e s s' \<longleftrightarrow>
     length (cells s') = length (cells s)
   \<and> (\<forall>a < length (cells s). cell_evolves e (cells s ! a) (cells s' ! a))
   \<and> closed_chans s \<subseteq> closed_chans s'
   \<and> length (timers s') = length (timers s)
   \<and> (\<forall>t < length (timers s). \<not> active (timers s ! t) \<longrightarrow> \<not> active (timers s' ! t))
   \<and> (\<forall>a < length (cells s). \<forall>t. timer (cells s ! a) = Some t \<longrightarrow>
          timer (cells s' ! a) = Some t \<or> (t < length (timers s) \<and> \<not> active (timers s' ! t)))"


text \<open>The number of cells whose error is not set.\<close>

definition live_count :: "state \<Rightarrow> nat" where
  "live_count s = length (filter (\<lambda>c. err c = None) (cells s))"

subsection \<open>Tracked descendants\<close>

text \<open>The address of the \<^verbatim>\<open>cancelCtx\<close> struct of a \<^verbatim>\<open>canceler\<close>.\<close>

fun cell_of :: "ctx \<Rightarrow> addr option" where
  "cell_of (cancelCtx parent a) = Some a"
| "cell_of (timerCtx parent a d) = Some a"
| "cell_of emptyCtx = None"
| "cell_of (valueCtx parent k v) = None"
| "cell_of (otherCtx dl dn er vs) = None"

text \<open>The children a node tracks in a state: the keys of its map \<^verbatim>\<open>children\<close>.\<close>

definition kids :: "state \<Rightarrow> ctx \<Rightarrow> ctx list" where
  "kids s c =
     (case cell_of c of
        None \<Rightarrow> []
      | Some a \<Rightarrow> if a < length (cells s) then child_list (cells s ! a) else [])"

text \<open>The tracked descendants of a node: its children, their children, and so on.\<close>

inductive tracked :: "state \<Rightarrow> ctx \<Rightarrow> ctx \<Rightarrow> bool" for s :: state and c :: ctx where
  child: "k \<in> set (kids s c) \<Longrightarrow> tracked s c k"
| below: "tracked s c d \<Longrightarrow> k \<in> set (kids s d) \<Longrightarrow> tracked s c k"




subsection \<open>The nodes of a tree used as example\<close>

text \<open>
  A tree of four nodes: \<^verbatim>\<open>root, _ := WithCancel(Background())\<close>, then
  \<^verbatim>\<open>a, _ := WithCancel(root)\<close>, then \<^verbatim>\<open>t, _ := WithDeadline(WithValue(root, 1, 5), 50)\<close> at
  time 0, then \<^verbatim>\<open>b, _ := WithCancel(a)\<close>.
\<close>

definition tree_root :: ctx where
  "tree_root = cancelCtx emptyCtx 0"

definition tree_a :: ctx where
  "tree_a = cancelCtx tree_root 1"

definition tree_t :: ctx where
  "tree_t = timerCtx (valueCtx tree_root (KComparable 1) (VAny 5)) 2 50"

definition tree_b :: ctx where
  "tree_b = cancelCtx tree_a 3"

subsection \<open>Well-formed states\<close>

text \<open>
  A context all of whose references are to cells of a store with \<open>n\<close> cells: its own
  cell, the cells of its ancestors, and the \<^verbatim>\<open>*cancelCtx\<close> values bound on the way.
\<close>

fun val_ok :: "nat \<Rightarrow> val \<Rightarrow> bool" where
  "val_ok n (VCancelCtx q) = (q < n)"
| "val_ok n VNil = True"
| "val_ok n (VAny x) = True"

fun ctx_ok :: "nat \<Rightarrow> ctx \<Rightarrow> bool" where
  "ctx_ok n emptyCtx = True"
| "ctx_ok n (valueCtx parent k v) = (val_ok n v \<and> ctx_ok n parent)"
| "ctx_ok n (cancelCtx parent a) = (a < n \<and> ctx_ok n parent)"
| "ctx_ok n (timerCtx parent a d) = (a < n \<and> ctx_ok n parent)"
| "ctx_ok n (otherCtx dl dn er vs) = val_ok n (otherCtx_Value vs cancelCtxKeyAddr)"

text \<open>
  The states in which no run of \<^verbatim>\<open>cancel\<close> panics: the children of every node are
  \<^verbatim>\<open>canceler\<close>s with a cell; the timer handles are of timers that exist; the done channel
  of a live node is open, and no two live nodes store the same channel.
\<close>

definition kids_ok :: "state \<Rightarrow> bool" where
  "kids_ok s \<longleftrightarrow>
     (\<forall>a < length (cells s). \<forall>k \<in> set (child_list (cells s ! a)).
        \<exists>b. cell_of k = Some b \<and> b < length (cells s))"

definition timers_ok :: "state \<Rightarrow> bool" where
  "timers_ok s \<longleftrightarrow>
     (\<forall>a < length (cells s). \<forall>t. timer (cells s ! a) = Some t \<longrightarrow> t < length (timers s))"

definition chans_ok :: "state \<Rightarrow> bool" where
  "chans_ok s \<longleftrightarrow>
     (\<forall>a < length (cells s). err (cells s ! a) = None \<longrightarrow>
        (\<forall>d. done_ch (cells s ! a) = Some d \<longrightarrow> \<not> is_closed s d))
   \<and> (\<forall>a < length (cells s). \<forall>b < length (cells s).
        a \<noteq> b \<longrightarrow> err (cells s ! a) = None \<longrightarrow> err (cells s ! b) = None \<longrightarrow>
        done_ch (cells s ! a) \<noteq> None \<longrightarrow> done_ch (cells s ! a) \<noteq> done_ch (cells s ! b))"

definition wf_state :: "state \<Rightarrow> bool" where
  "wf_state s \<longleftrightarrow> kids_ok s \<and> timers_ok s \<and> chans_ok s"

subsection \<open>The shape of the tree\<close>







text \<open>\<open>below s c b\<close>: \<open>b\<close> is the cell of \<open>c\<close> or of a tracked descendant of \<open>c\<close>.\<close>

definition below :: "state \<Rightarrow> ctx \<Rightarrow> addr \<Rightarrow> bool" where
  "below s c b \<longleftrightarrow> cell_of c = Some b \<or> (\<exists>d. tracked s c d \<and> cell_of d = Some b)"



text \<open>
  \<open>tree_kept s s'\<close>: from \<open>s\<close> to \<open>s'\<close> the errors and the children of all nodes and the
  functions of the timers are the same, and the done channels that are stored stay.
\<close>

definition tree_kept :: "state \<Rightarrow> state \<Rightarrow> bool" where
  "tree_kept s s' \<longleftrightarrow>
     length (cells s') = length (cells s)
   \<and> (\<forall>a < length (cells s).
        err (cells s' ! a) = err (cells s ! a)
      \<and> children (cells s' ! a) = children (cells s ! a)
      \<and> (done_ch (cells s ! a) \<noteq> None \<longrightarrow> done_ch (cells s' ! a) = done_ch (cells s ! a)))
   \<and> map callback (timers s') = map callback (timers s)"

subsection \<open>States used as examples\<close>

text \<open>The state when the program starts: no node, no channel but \<^verbatim>\<open>closedchan\<close>, no timer.\<close>

definition init_state :: state where
  "init_state =
     \<lparr>cells = [], closed_chans = {}, nextchan = 0, timers = [], goroutines = 0, waiters = []\<rparr>"

text \<open>
  After \<^verbatim>\<open>ctx, cancel := WithCancel(Background())\<close>, then after \<^verbatim>\<open>ctx.Done()\<close>, then after
  \<^verbatim>\<open>cancel()\<close>.
\<close>

definition st_fresh :: state where
  "st_fresh = init_state\<lparr>cells := [new_cell]\<rparr>"

definition st_observed :: state where
  "st_observed = init_state\<lparr>cells := [new_cell\<lparr>done_ch := Some (Chan 0)\<rparr>], nextchan := 1\<rparr>"

definition st_observed_canceled :: state where
  "st_observed_canceled =
     init_state\<lparr>cells := [new_cell\<lparr>done_ch := Some (Chan 0), err := Some Canceled\<rparr>],
                closed_chans := {0}, nextchan := 1\<rparr>"

text \<open>
  After \<^verbatim>\<open>parent, _ := WithDeadline(Background(), 10)\<close> at time 0, and then after
  \<^verbatim>\<open>WithDeadline(parent, 20)\<close>.
\<close>

definition st_deadline :: state where
  "st_deadline =
     init_state\<lparr>cells := [new_cell\<lparr>timer := Some 0\<rparr>],
                timers := [\<lparr>dur = 10,
                            callback = CancelFunc (timerCtx emptyCtx 0 10) True DeadlineExceeded,
                            active = True\<rparr>]\<rparr>"

definition st_deadline_child :: state where
  "st_deadline_child =
     st_deadline\<lparr>cells := [new_cell\<lparr>done_ch := Some (Chan 0),
                                     children := Some [cancelCtx (timerCtx emptyCtx 0 10) 1],
                                     timer := Some 0\<rparr>,
                            new_cell],
                 nextchan := 1\<rparr>"

text \<open>After \<^verbatim>\<open>ctx, cancel := WithCancel(Background())\<close> and \<^verbatim>\<open>cancel()\<close>, with no \<^verbatim>\<open>Done()\<close> before.\<close>

definition st_fresh_canceled :: state where
  "st_fresh_canceled =
     init_state\<lparr>cells := [new_cell\<lparr>done_ch := Some closedchan, err := Some Canceled\<rparr>]\<rparr>"

text \<open>
  After \<^verbatim>\<open>ctx, cancel := WithDeadline(Background(), 10)\<close> at time 0 and \<^verbatim>\<open>cancel()\<close> before
  the deadline.
\<close>

definition st_deadline_canceled :: state where
  "st_deadline_canceled =
     init_state\<lparr>cells := [new_cell\<lparr>done_ch := Some closedchan, err := Some Canceled\<rparr>],
                timers := [\<lparr>dur = 10,
                            callback = CancelFunc (timerCtx emptyCtx 0 10) True DeadlineExceeded,
                            active = False\<rparr>]\<rparr>"

text \<open>
  After \<^verbatim>\<open>parent, cancel := WithCancel(Background())\<close>, \<^verbatim>\<open>cancel()\<close>, and then
  \<^verbatim>\<open>WithDeadline(parent, 5)\<close> at time 10.
\<close>

definition st_canceled_parent_child :: state where
  "st_canceled_parent_child =
     init_state\<lparr>cells := [new_cell\<lparr>done_ch := Some closedchan, err := Some Canceled\<rparr>,
                          new_cell\<lparr>done_ch := Some closedchan, err := Some Canceled\<rparr>]\<rparr>"

text \<open>
  After \<^verbatim>\<open>parent, _ := WithCancel(Background())\<close> and then \<^verbatim>\<open>WithDeadline(parent, 5)\<close> at
  time 10.
\<close>

definition st_past_deadline :: state where
  "st_past_deadline =
     init_state\<lparr>cells := [new_cell\<lparr>done_ch := Some (Chan 0), children := Some []\<rparr>,
                          new_cell\<lparr>done_ch := Some closedchan, err := Some DeadlineExceeded\<rparr>],
                nextchan := 1\<rparr>"

definition st_tree :: state where
  "st_tree =
     init_state\<lparr>cells := [new_cell\<lparr>done_ch := Some (Chan 0), children := Some [tree_t, tree_a]\<rparr>,
                          new_cell\<lparr>done_ch := Some (Chan 1), children := Some [tree_b]\<rparr>,
                          new_cell\<lparr>timer := Some 0\<rparr>,
                          new_cell],
                nextchan := 2,
                timers := [\<lparr>dur = 50, callback = CancelFunc tree_t True DeadlineExceeded,
                            active = True\<rparr>]\<rparr>"


subsection \<open>The states that a program reaches\<close>




section \<open>Facts about the store and about cancel\<close>

subsection \<open>Induction over the runs of cancel that return\<close>

text \<open>
  One case for each way in which a call of \<^verbatim>\<open>cancel\<close> returns: the node was canceled
  before; the node is canceled now, its children are canceled in turn and it is
  detached; the two dispatches on the type of the receiver; the loop over the children.
\<close>

declare cancelCtx_cancel.simps [simp del]

lemma cancel_success_induct:
  assumes noop: "\<And>n s parent a rm e. e \<noteq> None \<Longrightarrow> a < length (cells s) \<Longrightarrow>
      err (cells s ! a) \<noteq> None \<Longrightarrow> Q n s parent a rm e s"
  and live: "\<And>n s parent a rm e s1 s2 s'. e \<noteq> None \<Longrightarrow> a < length (cells s) \<Longrightarrow>
      err (cells s ! a) = None \<Longrightarrow>
      signal_done (upd_cell a (\<lambda>c. c\<lparr>err := e\<rparr>) s) a = Inr s1 \<Longrightarrow>
      cancel_children n s1 (child_list (cells s1 ! a)) e = Inr s2 \<Longrightarrow>
      R n s1 (child_list (cells s1 ! a)) e s2 \<Longrightarrow>
      (if rm then removeChild (upd_cell a (\<lambda>c. c\<lparr>children := None\<rparr>) s2) parent (cancelCtx parent a)
       else Inr (upd_cell a (\<lambda>c. c\<lparr>children := None\<rparr>) s2)) = Inr s' \<Longrightarrow>
      Q n s parent a rm e s'"
  and plain: "\<And>n s parent a rm e s'. cancelCtx_cancel n s parent a rm e = Inr s' \<Longrightarrow>
      Q n s parent a rm e s' \<Longrightarrow> P (Suc n) s (cancelCtx parent a) rm e s'"
  and timed: "\<And>n s parent a d rm e s1 s2 s'. cancelCtx_cancel n s parent a False e = Inr s1 \<Longrightarrow>
      Q n s parent a False e s1 \<Longrightarrow>
      (if rm then removeChild s1 parent (timerCtx parent a d) else Inr s1) = Inr s2 \<Longrightarrow>
      stop_timer s2 a = Inr s' \<Longrightarrow> P (Suc n) s (timerCtx parent a d) rm e s'"
  and nil: "\<And>n s e. R n s [] e s"
  and cons: "\<And>n s child rest e s1 s'. cancel_fuel n s child False e = Inr s1 \<Longrightarrow>
      P n s child False e s1 \<Longrightarrow> cancel_children n s1 rest e = Inr s' \<Longrightarrow>
      R n s1 rest e s' \<Longrightarrow> R n s (child # rest) e s'"
  shows "cancel_fuel n1 t1 c1 rm1 e1 = Inr u1 \<Longrightarrow> P n1 t1 c1 rm1 e1 u1"
    and "cancelCtx_cancel n2 t2 p2 a2 rm2 e2 = Inr u2 \<Longrightarrow> Q n2 t2 p2 a2 rm2 e2 u2"
    and "cancel_children n3 t3 cs3 e3 = Inr u3 \<Longrightarrow> R n3 t3 cs3 e3 u3"
proof (induction n1 t1 c1 rm1 e1 and n2 t2 p2 a2 rm2 e2 and n3 t3 cs3 e3
       arbitrary: u1 and u2 and u3
       rule: cancel_fuel_cancelCtx_cancel_cancel_children.induct)
  case (1 s c rm e)
  then show ?case by simp
next
  case (2 n s parent a rm e)
  then show ?case by (simp add: plain)
next
  case (3 n s parent a d rm e)
  from "3.prems" obtain s1 s2 where
    a: "cancelCtx_cancel n s parent a False e = Inr s1" and
    b: "(if rm then removeChild s1 parent (timerCtx parent a d) else Inr s1) = Inr s2" and
    c: "stop_timer s2 a = Inr u1"
    by (auto split: sum.splits if_splits)
  show ?case using timed [OF a "3.IH" [OF a] b c] .
next
  case (4 n s rm e)
  then show ?case by simp
next
  case (5 n s v va vb rm e)
  then show ?case by simp
next
  case (6 n s v va vb vc rm e)
  then show ?case by simp
next
  case (7 n s parent a rm e)
  show ?case
  proof (cases "err (cells s ! a) \<noteq> None")
    case True
    with "7.prems" have "u2 = s" "e \<noteq> None" "a < length (cells s)"
      by (auto simp: cancelCtx_cancel.simps split: if_splits)
    then show ?thesis using noop True by simp
  next
    case False
    with "7.prems" obtain s1 s2 where
      e: "e \<noteq> None" and a: "a < length (cells s)" and
      sd: "signal_done (upd_cell a (\<lambda>c. c\<lparr>err := e\<rparr>) s) a = Inr s1" and
      cc: "cancel_children n s1 (child_list (cells s1 ! a)) e = Inr s2" and
      fin: "(if rm then removeChild (upd_cell a (\<lambda>c. c\<lparr>children := None\<rparr>) s2) parent (cancelCtx parent a)
            else Inr (upd_cell a (\<lambda>c. c\<lparr>children := None\<rparr>) s2)) = Inr u2"
      by (auto simp: cancelCtx_cancel.simps split: if_splits sum.splits)
    have ih: "R n s1 (child_list (cells s1 ! a)) e s2"
      using "7.IH" [OF e _ _ sd cc] a False by simp
    show ?thesis using live [OF e a _ sd cc ih fin] False by simp
  qed
next
  case (8 n s e)
  then show ?case by (simp add: nil)
next
  case (9 n s child rest e)
  from "9.prems" obtain s1 where
    a: "cancel_fuel n s child False e = Inr s1" and b: "cancel_children n s1 rest e = Inr u3"
    by (auto split: sum.splits)
  show ?case using cons [OF a "9.IH"(1) [OF a] b "9.IH"(2) [OF a b]] .
qed


subsection \<open>Every run of cancel that returns evolves the state\<close>

lemma length_cells_upd_cell [simp]: "length (cells (upd_cell a f s)) = length (cells s)"
  by (simp add: upd_cell_def)

lemma nth_cells_upd_cell:
  "b < length (cells s) \<Longrightarrow>
     cells (upd_cell a f s) ! b = (if b = a then f (cells s ! a) else cells s ! b)"
  by (cases "a < length (cells s)") (auto simp: upd_cell_def nth_list_update)

lemma upd_cell_fields [simp]:
  "closed_chans (upd_cell a f s) = closed_chans s"
  "nextchan (upd_cell a f s) = nextchan s"
  "timers (upd_cell a f s) = timers s"
  "goroutines (upd_cell a f s) = goroutines s"
  "waiters (upd_cell a f s) = waiters s"
  by (simp_all add: upd_cell_def)

lemma cell_evolves_refl: "cell_evolves e c c"
  by (simp add: cell_evolves_def)

lemma cell_evolves_trans:
  "cell_evolves e c c' \<Longrightarrow> cell_evolves e c' c'' \<Longrightarrow> cell_evolves e c c''"
  unfolding cell_evolves_def by metis

lemma evolves_refl: "evolves e s s"
  by (simp add: evolves_def cell_evolves_refl)

lemma evolves_trans:
  assumes "evolves e s s'" and "evolves e s' s''"
  shows "evolves e s s''"
proof -
  have len: "length (cells s') = length (cells s)" "length (cells s'') = length (cells s')"
    "length (timers s') = length (timers s)" "length (timers s'') = length (timers s')"
    using assms by (simp_all add: evolves_def)
  have c: "\<forall>a < length (cells s). cell_evolves e (cells s ! a) (cells s'' ! a)"
    using assms len by (auto simp: evolves_def intro: cell_evolves_trans)
  have cl: "closed_chans s \<subseteq> closed_chans s''"
    using assms by (auto simp: evolves_def)
  have act: "\<forall>t < length (timers s). \<not> active (timers s ! t) \<longrightarrow> \<not> active (timers s'' ! t)"
    using assms len by (simp add: evolves_def)
  have tm: "\<forall>a < length (cells s). \<forall>t. timer (cells s ! a) = Some t \<longrightarrow>
          timer (cells s'' ! a) = Some t \<or> (t < length (timers s) \<and> \<not> active (timers s'' ! t))"
  proof (intro allI impI)
    fix a t assume a: "a < length (cells s)" and t: "timer (cells s ! a) = Some t"
    from assms(1) a t have "timer (cells s' ! a) = Some t \<or> (t < length (timers s) \<and> \<not> active (timers s' ! t))"
      by (simp add: evolves_def)
    then show "timer (cells s'' ! a) = Some t \<or> (t < length (timers s) \<and> \<not> active (timers s'' ! t))"
    proof
      assume "timer (cells s' ! a) = Some t"
      with assms(2) a len show ?thesis by (simp add: evolves_def)
    next
      assume "t < length (timers s) \<and> \<not> active (timers s' ! t)"
      with assms(2) len show ?thesis by (simp add: evolves_def)
    qed
  qed
  show ?thesis
    unfolding evolves_def using len c cl act tm by simp
qed

lemma evolves_cells:
  assumes "length (cells s') = length (cells s)"
    and "\<And>a. a < length (cells s) \<Longrightarrow> cell_evolves e (cells s ! a) (cells s' ! a)"
    and "\<And>a. a < length (cells s) \<Longrightarrow> timer (cells s' ! a) = timer (cells s ! a)"
    and "closed_chans s \<subseteq> closed_chans s'" and "timers s' = timers s"
  shows "evolves e s s'"
  using assms by (simp add: evolves_def)

lemma evolves_set_err:
  assumes "a < length (cells s)" and "err (cells s ! a) = None"
  shows "evolves e s (upd_cell a (\<lambda>c. c\<lparr>err := e\<rparr>) s)"
  using assms
  by (intro evolves_cells) (auto simp: nth_cells_upd_cell cell_evolves_def)

lemma evolves_signal_done:
  assumes "signal_done s a = Inr s'" and "a < length (cells s)"
  shows "evolves e s s'"
proof (cases "done_ch (cells s ! a)")
  case None
  with assms have "s' = upd_cell a (\<lambda>c. c\<lparr>done_ch := Some closedchan\<rparr>) s"
    by (simp add: signal_done_def)
  with None assms(2) show ?thesis
    by (intro evolves_cells) (auto simp: nth_cells_upd_cell cell_evolves_def)
next
  case (Some d)
  with assms have "close_chan s d = Inr s'" by (simp add: signal_done_def)
  then have "\<exists>n. s' = s\<lparr>closed_chans := insert n (closed_chans s)\<rparr>"
    by (cases d) (auto split: if_splits)
  then show ?thesis
    by (intro evolves_cells) (auto simp: cell_evolves_refl)
qed

lemma evolves_drop_children:
  "evolves e s (upd_cell a (\<lambda>c. c\<lparr>children := None\<rparr>) s)"
  by (intro evolves_cells) (auto simp: nth_cells_upd_cell cell_evolves_def)

lemma evolves_cancelCtx_Done:
  assumes "cancelCtx_Done s a = Inr (s', dn)"
  shows "evolves e s s'"
  using assms
  by (intro evolves_cells)
     (auto simp: cancelCtx_Done_def nth_cells_upd_cell cell_evolves_def Let_def
           split: if_splits option.splits)

lemma evolves_Done:
  "Done s c = Inr (s', dn) \<Longrightarrow> evolves e s s'"
  by (induction c) (auto simp: evolves_refl evolves_cancelCtx_Done)

lemma evolves_parentCancelCtx:
  "parentCancelCtx s c = Inr (s', r) \<Longrightarrow> evolves e s s'"
  by (auto simp: parentCancelCtx_def evolves_Done split: sum.splits prod.splits if_splits val.splits)

lemma evolves_removeChild:
  assumes "removeChild s parent child = Inr s'"
  shows "evolves e s s'"
proof -
  from assms obtain s1 r where p: "parentCancelCtx s parent = Inr (s1, r)"
    by (auto simp: removeChild_def split: sum.splits)
  have e1: "evolves e s s1" using p by (rule evolves_parentCancelCtx)
  have "evolves e s1 s'"
    using assms p
    by (cases r; intro evolves_cells)
       (auto simp: removeChild_def nth_cells_upd_cell cell_evolves_def
             split: option.splits if_splits)
  with e1 show ?thesis by (rule evolves_trans)
qed

lemma evolves_stop_timer:
  assumes "stop_timer s a = Inr s'"
  shows "evolves e s s'"
  using assms unfolding evolves_def
  by (auto simp: stop_timer_def nth_cells_upd_cell nth_list_update cell_evolves_def
        split: if_splits option.splits)


lemma cancel_evolves:
  shows "cancel_fuel n1 t1 c1 rm1 e1 = Inr u1 \<Longrightarrow> evolves e1 t1 u1"
    and "cancelCtx_cancel n2 t2 p2 a2 rm2 e2 = Inr u2 \<Longrightarrow> evolves e2 t2 u2"
    and "cancel_children n3 t3 cs3 e3 = Inr u3 \<Longrightarrow> evolves e3 t3 u3"
proof -
  have noop: "\<And>s e. evolves e s s" by (rule evolves_refl)
  have live: "\<And>n s parent a rm e s1 s2 s'. e \<noteq> None \<Longrightarrow> a < length (cells s) \<Longrightarrow>
      err (cells s ! a) = None \<Longrightarrow>
      signal_done (upd_cell a (\<lambda>c. c\<lparr>err := e\<rparr>) s) a = Inr s1 \<Longrightarrow>
      cancel_children n s1 (child_list (cells s1 ! a)) e = Inr s2 \<Longrightarrow>
      evolves e s1 s2 \<Longrightarrow>
      (if rm then removeChild (upd_cell a (\<lambda>c. c\<lparr>children := None\<rparr>) s2) parent (cancelCtx parent a)
       else Inr (upd_cell a (\<lambda>c. c\<lparr>children := None\<rparr>) s2)) = Inr s' \<Longrightarrow>
      evolves e s s'"
  proof -
    fix n s parent a rm e s1 s2 s'
    assume a: "a < length (cells s)" and live: "err (cells s ! a) = None"
      and sd: "signal_done (upd_cell a (\<lambda>c. c\<lparr>err := e\<rparr>) s) a = Inr s1"
      and ih: "evolves e s1 s2"
      and fin: "(if rm then removeChild (upd_cell a (\<lambda>c. c\<lparr>children := None\<rparr>) s2) parent (cancelCtx parent a)
       else Inr (upd_cell a (\<lambda>c. c\<lparr>children := None\<rparr>) s2)) = Inr s'"
    have 1: "evolves e s (upd_cell a (\<lambda>c. c\<lparr>err := e\<rparr>) s)"
      using a live by (rule evolves_set_err)
    have 2: "evolves e (upd_cell a (\<lambda>c. c\<lparr>err := e\<rparr>) s) s1"
      using sd a by (intro evolves_signal_done) simp_all
    have 3: "evolves e s2 (upd_cell a (\<lambda>c. c\<lparr>children := None\<rparr>) s2)"
      by (rule evolves_drop_children)
    have 4: "evolves e (upd_cell a (\<lambda>c. c\<lparr>children := None\<rparr>) s2) s'"
      using fin by (auto simp: evolves_refl evolves_removeChild split: if_splits)
    show "evolves e s s'"
      using 1 2 ih 3 4 by (blast intro: evolves_trans)
  qed
  have timed: "\<And>n s parent a d rm e s1 s2 s'. cancelCtx_cancel n s parent a False e = Inr s1 \<Longrightarrow>
      evolves e s s1 \<Longrightarrow>
      (if rm then removeChild s1 parent (timerCtx parent a d) else Inr s1) = Inr s2 \<Longrightarrow>
      stop_timer s2 a = Inr s' \<Longrightarrow> evolves e s s'"
  proof -
    fix n s parent a d rm e s1 s2 s'
    assume ih: "evolves e s s1"
      and rmv: "(if rm then removeChild s1 parent (timerCtx parent a d) else Inr s1) = Inr s2"
      and st: "stop_timer s2 a = Inr s'"
    have 1: "evolves e s1 s2"
      using rmv by (auto simp: evolves_refl evolves_removeChild split: if_splits)
    have 2: "evolves e s2 s'" using st by (rule evolves_stop_timer)
    show "evolves e s s'" using ih 1 2 by (blast intro: evolves_trans)
  qed
  have cons: "\<And>n s child rest e s1 s'. cancel_fuel n s child False e = Inr s1 \<Longrightarrow>
      evolves e s s1 \<Longrightarrow> cancel_children n s1 rest e = Inr s' \<Longrightarrow>
      evolves e s1 s' \<Longrightarrow> evolves e s s'"
    by (blast intro: evolves_trans)
  note r = cancel_success_induct
    [where P = "\<lambda>n s c rm e s'. evolves e s s'"
       and Q = "\<lambda>n s p a rm e s'. evolves e s s'"
       and R = "\<lambda>n s cs e s'. evolves e s s'"]
  show "cancel_fuel n1 t1 c1 rm1 e1 = Inr u1 \<Longrightarrow> evolves e1 t1 u1"
    by (rule r(1)) (erule (6) live | erule (3) timed | erule (3) cons | rule noop | assumption)+
  show "cancelCtx_cancel n2 t2 p2 a2 rm2 e2 = Inr u2 \<Longrightarrow> evolves e2 t2 u2"
    by (rule r(2)) (erule (6) live | erule (3) timed | erule (3) cons | rule noop | assumption)+
  show "cancel_children n3 t3 cs3 e3 = Inr u3 \<Longrightarrow> evolves e3 t3 u3"
    by (rule r(3)) (erule (6) live | erule (3) timed | erule (3) cons | rule noop | assumption)+
qed

subsection \<open>The recursion budget of cancel is enough\<close>

lemma filter_length_mono:
  "length xs = length ys \<Longrightarrow> (\<forall>i < length xs. P (ys ! i) \<longrightarrow> Q (xs ! i)) \<Longrightarrow>
     length (filter P ys) \<le> length (filter Q xs)"
proof (induction xs ys rule: list_induct2)
  case Nil
  then show ?case by simp
next
  case (Cons x xs y ys)
  have step: "\<forall>i < length xs. P (ys ! i) \<longrightarrow> Q (xs ! i)"
  proof (intro allI impI)
    fix i assume "i < length xs" "P (ys ! i)"
    with Cons.prems [rule_format, of "Suc i"] show "Q (xs ! i)" by simp
  qed
  have hd: "P y \<longrightarrow> Q x" using Cons.prems [rule_format, of 0] by simp
  from Cons.IH [OF step] hd show ?case by auto
qed

lemma live_count_evolves:
  assumes "evolves e s s'"
  shows "live_count s' \<le> live_count s"
  unfolding live_count_def
proof (rule filter_length_mono)
  show "length (cells s) = length (cells s')" using assms by (simp add: evolves_def)
  show "\<forall>i<length (cells s). err (cells s' ! i) = None \<longrightarrow> err (cells s ! i) = None"
    using assms by (auto simp: evolves_def cell_evolves_def)
qed

lemma filter_length_update_less:
  "a < length xs \<Longrightarrow> P (xs ! a) \<Longrightarrow> \<not> P y \<Longrightarrow>
     length (filter P (xs[a := y])) < length (filter P xs)"
proof (induction xs arbitrary: a)
  case Nil
  then show ?case by simp
next
  case (Cons x xs)
  show ?case
  proof (cases a)
    case 0
    with Cons.prems show ?thesis by (simp add: le_imp_less_Suc)
  next
    case (Suc b)
    with Cons.prems Cons.IH [of b] show ?thesis by simp
  qed
qed

lemma live_count_set_err:
  assumes "a < length (cells s)" and "err (cells s ! a) = None" and "e \<noteq> None"
  shows "live_count (upd_cell a (\<lambda>c. c\<lparr>err := e\<rparr>) s) < live_count s"
  using assms unfolding live_count_def upd_cell_def
  by (simp add: filter_length_update_less)

lemma live_count_le_length: "live_count s \<le> length (cells s)"
  by (simp add: live_count_def)

lemma Done_not_OutOfFuel: "Done s c \<noteq> Inl OutOfFuel"
  by (induction c) (auto simp: cancelCtx_Done_def Let_def split: option.splits)

lemma removeChild_not_OutOfFuel: "removeChild s p c \<noteq> Inl OutOfFuel"
  using Done_not_OutOfFuel [of s p]
  by (auto simp: removeChild_def parentCancelCtx_def
      split: sum.splits prod.splits option.splits val.splits if_splits)

lemma stop_timer_not_OutOfFuel: "stop_timer s a \<noteq> Inl OutOfFuel"
  by (auto simp: stop_timer_def split: option.splits)

lemma signal_done_not_OutOfFuel: "signal_done s a \<noteq> Inl OutOfFuel"
proof (cases "done_ch (cells s ! a)")
  case None
  then show ?thesis by (simp add: signal_done_def)
next
  case (Some d)
  then show ?thesis by (cases d) (simp_all add: signal_done_def)
qed

lemma live_count_signal_done:
  assumes "signal_done s a = Inr s'" and "a < length (cells s)"
  shows "live_count s' \<le> live_count s"
  using evolves_signal_done [OF assms] by (rule live_count_evolves)

lemma cancel_fuel_enough:
  shows "live_count t1 < n1 \<Longrightarrow> cancel_fuel n1 t1 c1 rm1 e1 \<noteq> Inl OutOfFuel"
    and "live_count t2 \<le> n2 \<Longrightarrow> cancelCtx_cancel n2 t2 p2 a2 rm2 e2 \<noteq> Inl OutOfFuel"
    and "live_count t3 < n3 \<Longrightarrow> cancel_children n3 t3 cs3 e3 \<noteq> Inl OutOfFuel"
proof (induction n1 t1 c1 rm1 e1 and n2 t2 p2 a2 rm2 e2 and n3 t3 cs3 e3
       rule: cancel_fuel_cancelCtx_cancel_cancel_children.induct)
  case (1 s c rm e)
  then show ?case by simp
next
  case (2 n s parent a rm e)
  then show ?case by simp
next
  case (3 n s parent a d rm e)
  then show ?case
    using removeChild_not_OutOfFuel stop_timer_not_OutOfFuel
    by (auto split: sum.splits)
next
  case (4 n s rm e)
  then show ?case by simp
next
  case (5 n s v va vb rm e)
  then show ?case by simp
next
  case (6 n s v va vb vc rm e)
  then show ?case by simp
next
  case (7 n s parent a rm e)
  show ?case
  proof (cases "e \<noteq> None \<and> a < length (cells s) \<and> err (cells s ! a) = None")
    case False
    then show ?thesis by (auto simp: cancelCtx_cancel.simps)
  next
    case True
    let ?s0 = "upd_cell a (\<lambda>c. c\<lparr>err := e\<rparr>) s"
    have l0: "live_count ?s0 < live_count s"
      using True by (simp add: live_count_set_err)
    show ?thesis
    proof (cases "signal_done ?s0 a")
      case (Inl f)
      with True signal_done_not_OutOfFuel [of ?s0 a] show ?thesis
        by (auto simp: cancelCtx_cancel.simps)
    next
      case (Inr s1)
      have "live_count s1 \<le> live_count ?s0"
        using Inr True by (intro live_count_signal_done [of ?s0 a]) simp_all
      with l0 "7.prems" have "live_count s1 < n" by simp
      with "7.IH" [OF _ _ _ Inr] True
      have "cancel_children n s1 (child_list (cells s1 ! a)) e \<noteq> Inl OutOfFuel" by simp
      with True Inr removeChild_not_OutOfFuel show ?thesis
        by (auto simp: cancelCtx_cancel.simps split: sum.splits)
    qed
  qed
next
  case (8 n s e)
  then show ?case by simp
next
  case (9 n s child rest e)
  show ?case
  proof (cases "cancel_fuel n s child False e")
    case (Inl f)
    with "9.IH"(1) "9.prems" show ?thesis by auto
  next
    case (Inr s1)
    have "live_count s1 \<le> live_count s"
      using cancel_evolves(1) [OF Inr] by (rule live_count_evolves)
    with "9.IH"(2) [OF Inr] "9.prems" Inr show ?thesis by simp
  qed
qed

lemma cancel_not_OutOfFuel: "cancel s c rm e \<noteq> Inl OutOfFuel"
  unfolding cancel_def
  by (rule cancel_fuel_enough(1)) (simp add: live_count_le_length le_imp_less_Suc)

subsection \<open>The steps of one run of cancel\<close>

lemma evolves_length: "evolves e s s' \<Longrightarrow> length (cells s') = length (cells s)"
  by (simp add: evolves_def)

lemma evolves_err_Some:
  "evolves e s s' \<Longrightarrow> a < length (cells s) \<Longrightarrow> err (cells s ! a) = Some x \<Longrightarrow>
     err (cells s' ! a) = Some x"
  by (simp add: evolves_def cell_evolves_def)

lemma evolves_done_Some:
  "evolves e s s' \<Longrightarrow> a < length (cells s) \<Longrightarrow> done_ch (cells s ! a) = Some d \<Longrightarrow>
     done_ch (cells s' ! a) = Some d"
  by (simp add: evolves_def cell_evolves_def)

lemma evolves_is_closed:
  "evolves e s s' \<Longrightarrow> is_closed s d \<Longrightarrow> is_closed s' d"
  by (cases d) (auto simp: evolves_def)

lemma signal_done_length:
  "signal_done s a = Inr s' \<Longrightarrow> a < length (cells s) \<Longrightarrow> length (cells s') = length (cells s)"
  using evolves_signal_done [of s a s' None] by (simp add: evolves_length)

text \<open>What \<^verbatim>\<open>removeChild\<close> and the end of \<^verbatim>\<open>timerCtx.cancel\<close> leave as it is.\<close>

lemma Done_children:
  "Done s c = Inr (s', dn) \<Longrightarrow> b < length (cells s) \<Longrightarrow>
     children (cells s' ! b) = children (cells s ! b)"
  by (induction c)
     (auto simp: cancelCtx_Done_def Let_def nth_cells_upd_cell split: if_splits option.splits)

lemma removeChild_children_None:
  assumes "removeChild s parent child = Inr s'" and "b < length (cells s)"
    and "children (cells s ! b) = None"
  shows "children (cells s' ! b) = None"
proof -
  from assms(1) obtain s1 r where p: "parentCancelCtx s parent = Inr (s1, r)"
    by (auto simp: removeChild_def split: sum.splits)
  then obtain dn where d: "Done s parent = Inr (s1, dn)"
    by (auto simp: parentCancelCtx_def split: sum.splits prod.splits if_splits val.splits)
  have len: "length (cells s1) = length (cells s)"
    using evolves_Done [OF d] by (rule evolves_length)
  have c1: "children (cells s1 ! b) = None"
    using Done_children [OF d assms(2)] assms(3) by simp
  show ?thesis
    using assms(1) p c1 len assms(2)
    by (cases r) (auto simp: removeChild_def nth_cells_upd_cell)
qed

lemma stop_timer_children:
  "stop_timer s a = Inr s' \<Longrightarrow> b < length (cells s) \<Longrightarrow>
     children (cells s' ! b) = children (cells s ! b)"
  by (auto simp: stop_timer_def nth_cells_upd_cell split: if_splits option.splits)

lemma stop_timer_timer:
  "stop_timer s a = Inr s' \<Longrightarrow> a < length (cells s') \<and> timer (cells s' ! a) = None"
  by (auto simp: stop_timer_def nth_cells_upd_cell split: if_splits option.splits)

text \<open>The run of \<^verbatim>\<open>cancelCtx.cancel\<close> on a node that was canceled before, and on one that was not.\<close>

lemma cancelCtx_cancel_noop:
  assumes "cancelCtx_cancel n s p a rm e = Inr s'" and "err (cells s ! a) \<noteq> None"
  shows "s' = s" and "a < length (cells s)" and "e \<noteq> None"
  using assms by (auto simp: cancelCtx_cancel.simps simp del: not_None_eq split: if_splits)

lemma cancelCtx_cancel_unfold_live:
  assumes "e \<noteq> None" and "a < length (cells s)" and "err (cells s ! a) = None"
  shows "cancelCtx_cancel n s p a rm e =
     (case signal_done (upd_cell a (\<lambda>c. c\<lparr>err := e\<rparr>) s) a of
        Inl f \<Rightarrow> Inl f
      | Inr s1 \<Rightarrow>
          (case cancel_children n s1 (child_list (cells s1 ! a)) e of
             Inl f \<Rightarrow> Inl f
           | Inr s2 \<Rightarrow>
               if rm then removeChild (upd_cell a (\<lambda>c. c\<lparr>children := None\<rparr>) s2)
                            p (cancelCtx p a)
               else Inr (upd_cell a (\<lambda>c. c\<lparr>children := None\<rparr>) s2)))"
  by (subst cancelCtx_cancel.simps)
     (simp only: assms if_False not_not if_True not_True_eq_False not_False_eq_True simp_thms)

lemma cancelCtx_cancel_live:
  assumes "cancelCtx_cancel n s p a rm e = Inr s'" and "err (cells s ! a) = None"
  obtains s1 where "e \<noteq> None" and "a < length (cells s)"
    and "signal_done (upd_cell a (\<lambda>c. c\<lparr>err := e\<rparr>) s) a = Inr s1"
    and "evolves e s1 s'" and "children (cells s' ! a) = None"
proof -
  have e: "e \<noteq> None"
  proof
    assume "e = None"
    with assms(1) show False by (simp add: cancelCtx_cancel.simps)
  qed
  have a: "a < length (cells s)"
  proof (rule ccontr)
    assume "\<not> a < length (cells s)"
    with assms(1) e show False by (simp add: cancelCtx_cancel.simps del: not_None_eq)
  qed
  note run = assms(1) [unfolded cancelCtx_cancel_unfold_live [OF e a assms(2)]]
  obtain s1 where
    sd: "signal_done (upd_cell a (\<lambda>c. c\<lparr>err := e\<rparr>) s) a = Inr s1"
    using run by (cases "signal_done (upd_cell a (\<lambda>c. c\<lparr>err := e\<rparr>) s) a") simp_all
  note run1 = run [unfolded sd sum.case]
  obtain s2 where
    cc: "cancel_children n s1 (child_list (cells s1 ! a)) e = Inr s2"
    using run1 by (cases "cancel_children n s1 (child_list (cells s1 ! a)) e") simp_all
  note fin = run1 [unfolded cc sum.case]
  let ?s3 = "upd_cell a (\<lambda>c. c\<lparr>children := None\<rparr>) s2"
  have l1: "length (cells s1) = length (cells s)"
    using signal_done_length [OF sd] a by simp
  have e12: "evolves e s1 s2" using cc by (rule cancel_evolves(3))
  have l2: "length (cells s2) = length (cells s)"
    using e12 l1 by (simp add: evolves_length)
  have e23: "evolves e s2 ?s3" by (rule evolves_drop_children)
  have e3: "evolves e ?s3 s'"
    using fin by (auto simp: evolves_refl evolves_removeChild split: if_splits)
  have ev: "evolves e s1 s'"
    using e12 e23 e3 by (blast intro: evolves_trans)
  have c3: "children (cells ?s3 ! a) = None"
    using a l2 by (simp add: nth_cells_upd_cell)
  have "children (cells s' ! a) = None"
  proof (cases rm)
    case True
    with fin have r: "removeChild ?s3 p (cancelCtx p a) = Inr s'" by simp
    show ?thesis using removeChild_children_None [OF r _ c3] a l2 by simp
  next
    case False
    with fin c3 show ?thesis by simp
  qed
  with e a sd ev show thesis by (rule that)
qed

lemma close_chan_Inr:
  assumes "close_chan s d = Inr s'"
  obtains k where "d = Chan k" and "s' = s\<lparr>closed_chans := insert k (closed_chans s)\<rparr>"
  using assms by (cases d) (auto split: if_splits)

lemma signal_done_node:
  assumes "signal_done s a = Inr s'" and "a < length (cells s)"
  shows "err (cells s' ! a) = err (cells s ! a)"
    and "done_ch (cells s ! a) = None \<Longrightarrow> done_ch (cells s' ! a) = Some closedchan"
    and "done_ch (cells s ! a) = Some d \<Longrightarrow> done_ch (cells s' ! a) = Some d \<and> is_closed s' d"
proof -
  show "err (cells s' ! a) = err (cells s ! a)"
  proof (cases "done_ch (cells s ! a)")
    case None
    with assms show ?thesis by (auto simp: signal_done_def nth_cells_upd_cell)
  next
    case (Some d')
    with assms(1) have "close_chan s d' = Inr s'" by (simp add: signal_done_def)
    then show ?thesis by (rule close_chan_Inr) simp
  qed
  show "done_ch (cells s ! a) = None \<Longrightarrow> done_ch (cells s' ! a) = Some closedchan"
    using assms by (auto simp: signal_done_def nth_cells_upd_cell)
  show "done_ch (cells s ! a) = Some d \<Longrightarrow> done_ch (cells s' ! a) = Some d \<and> is_closed s' d"
  proof -
    assume d: "done_ch (cells s ! a) = Some d"
    with assms(1) have "close_chan s d = Inr s'" by (simp add: signal_done_def)
    with d show ?thesis by (auto elim: close_chan_Inr)
  qed
qed

text \<open>After the first cancel of a node: its error, its channel, its children.\<close>

lemma cancelCtx_cancel_first:
  assumes run: "cancelCtx_cancel n s p a rm e = Inr s'" and live: "err (cells s ! a) = None"
  shows "a < length (cells s)" and "length (cells s') = length (cells s)"
    and "e \<noteq> None" and "err (cells s' ! a) = e"
    and "children (cells s' ! a) = None"
    and "done_ch (cells s ! a) = None \<Longrightarrow> done_ch (cells s' ! a) = Some closedchan"
    and "done_ch (cells s ! a) = Some d \<Longrightarrow> done_ch (cells s' ! a) = Some d \<and> is_closed s' d"
proof -
  let ?s0 = "upd_cell a (\<lambda>c. c\<lparr>err := e\<rparr>) s"
  from run live obtain s1 where e: "e \<noteq> None" and a: "a < length (cells s)"
    and sd: "signal_done ?s0 a = Inr s1"
    and ev: "evolves e s1 s'" and ch: "children (cells s' ! a) = None"
    by (rule cancelCtx_cancel_live)
  have a0: "a < length (cells ?s0)" using a by simp
  have l1: "length (cells s1) = length (cells s)"
    using signal_done_length [OF sd a0] by simp
  have a1: "a < length (cells s1)" using a l1 by simp
  from e obtain x where x: "e = Some x" by auto
  have "err (cells s1 ! a) = Some x"
    using signal_done_node(1) [OF sd a0] a x by (simp add: nth_cells_upd_cell)
  then have er: "err (cells s' ! a) = e"
    using evolves_err_Some [OF ev a1] x by simp
  show "a < length (cells s)" by (rule a)
  show "length (cells s') = length (cells s)" using ev l1 by (simp add: evolves_length)
  show "e \<noteq> None" by (rule e)
  show "err (cells s' ! a) = e" by (rule er)
  show "children (cells s' ! a) = None" by (rule ch)
  show "done_ch (cells s ! a) = None \<Longrightarrow> done_ch (cells s' ! a) = Some closedchan"
  proof -
    assume "done_ch (cells s ! a) = None"
    then have "done_ch (cells ?s0 ! a) = None" using a by (simp add: nth_cells_upd_cell)
    then have "done_ch (cells s1 ! a) = Some closedchan"
      by (rule signal_done_node(2) [OF sd a0])
    then show ?thesis by (rule evolves_done_Some [OF ev a1])
  qed
  show "done_ch (cells s ! a) = Some d \<Longrightarrow> done_ch (cells s' ! a) = Some d \<and> is_closed s' d"
  proof -
    assume "done_ch (cells s ! a) = Some d"
    then have "done_ch (cells ?s0 ! a) = Some d" using a by (simp add: nth_cells_upd_cell)
    then have "done_ch (cells s1 ! a) = Some d \<and> is_closed s1 d"
      by (rule signal_done_node(3) [OF sd a0])
    then show ?thesis
      using evolves_done_Some [OF ev a1] evolves_is_closed [OF ev] by simp
  qed
qed

text \<open>The run of \<^verbatim>\<open>timerCtx.cancel\<close>.\<close>

lemma timerCtx_cancel_run:
  assumes "cancel_fuel n s (timerCtx p a d) rm e = Inr s'"
  obtains m s1 s2 where "n = Suc m" and "cancelCtx_cancel m s p a False e = Inr s1"
    and "(if rm then removeChild s1 p (timerCtx p a d) else Inr s1) = Inr s2"
    and "stop_timer s2 a = Inr s'"
  using assms by (cases n) (auto split: sum.splits if_splits)

subsection \<open>The first cancel of a node and the later ones\<close>

lemma removeChild_length:
  "removeChild s p c = Inr s' \<Longrightarrow> length (cells s') = length (cells s)"
  using evolves_removeChild [of s p c s' None] by (simp add: evolves_length)

lemma stop_timer_length:
  "stop_timer s a = Inr s' \<Longrightarrow> length (cells s') = length (cells s)"
  using evolves_stop_timer [of s a s' None] by (simp add: evolves_length)

text \<open>
  The first cancel of a node, plain or with a deadline: what it leaves in the cell of
  the node.
\<close>

lemma first_cancel_node:
  assumes kind: "c = cancelCtx p a \<or> c = timerCtx p a d"
    and run: "cancel_fuel n s c rm e = Inr s'"
    and live: "err (cells s ! a) = None"
  shows "a < length (cells s)" and "length (cells s') = length (cells s)"
    and "e \<noteq> None" and "err (cells s' ! a) = e"
    and "children (cells s' ! a) = None"
    and "done_ch (cells s ! a) = None \<Longrightarrow> done_ch (cells s' ! a) = Some closedchan"
    and "done_ch (cells s ! a) = Some dn \<Longrightarrow> done_ch (cells s' ! a) = Some dn \<and> is_closed s' dn"
proof -
  have all: "a < length (cells s) \<and> length (cells s') = length (cells s) \<and> e \<noteq> None
      \<and> err (cells s' ! a) = e \<and> children (cells s' ! a) = None
      \<and> (done_ch (cells s ! a) = None \<longrightarrow> done_ch (cells s' ! a) = Some closedchan)
      \<and> (done_ch (cells s ! a) = Some dn \<longrightarrow> done_ch (cells s' ! a) = Some dn \<and> is_closed s' dn)"
    using kind
  proof
    assume c: "c = cancelCtx p a"
    with run obtain m where "cancelCtx_cancel m s p a rm e = Inr s'"
      by (cases n) auto
    from cancelCtx_cancel_first [OF this live] show ?thesis by blast
  next
    assume c: "c = timerCtx p a d"
    with run obtain m s1 s2 where
      cc: "cancelCtx_cancel m s p a False e = Inr s1" and
      rmv: "(if rm then removeChild s1 p (timerCtx p a d) else Inr s1) = Inr s2" and
      st: "stop_timer s2 a = Inr s'"
      by (auto elim: timerCtx_cancel_run)
    note f = cancelCtx_cancel_first [OF cc live]
    have a1: "a < length (cells s1)" using f(1,2) by simp
    have e12: "evolves e s1 s2"
      using rmv by (auto simp: evolves_refl evolves_removeChild split: if_splits)
    have l2: "length (cells s2) = length (cells s1)" using e12 by (rule evolves_length)
    have a2: "a < length (cells s2)" using a1 l2 by simp
    have e2: "evolves e s2 s'" using st by (rule evolves_stop_timer)
    have ev: "evolves e s1 s'" using e12 e2 by (rule evolves_trans)
    from f(3) obtain x where x: "e = Some x" by auto
    have er: "err (cells s' ! a) = e"
      using evolves_err_Some [OF ev a1, of x] f(4) x by simp
    have ch2: "children (cells s2 ! a) = None"
    proof (cases rm)
      case True
      with rmv have r: "removeChild s1 p (timerCtx p a d) = Inr s2" by simp
      show ?thesis by (rule removeChild_children_None [OF r a1 f(5)])
    next
      case False
      with rmv f(5) show ?thesis by simp
    qed
    have ch: "children (cells s' ! a) = None"
      using stop_timer_children [OF st a2] ch2 by simp
    have d1: "done_ch (cells s ! a) = None \<longrightarrow> done_ch (cells s' ! a) = Some closedchan"
      using f(6) evolves_done_Some [OF ev a1] by blast
    have d2: "done_ch (cells s ! a) = Some dn \<longrightarrow> done_ch (cells s' ! a) = Some dn \<and> is_closed s' dn"
      using f(7) [of dn] evolves_done_Some [OF ev a1] evolves_is_closed [OF ev] by blast
    show ?thesis
      using f(1,2,3) er ch d1 d2 evolves_length [OF ev] by simp
  qed
  from all show "a < length (cells s)" and "length (cells s') = length (cells s)"
    and "e \<noteq> None" and "err (cells s' ! a) = e"
    and "children (cells s' ! a) = None"
    and "done_ch (cells s ! a) = None \<Longrightarrow> done_ch (cells s' ! a) = Some closedchan"
    and "done_ch (cells s ! a) = Some dn \<Longrightarrow> done_ch (cells s' ! a) = Some dn \<and> is_closed s' dn"
    by blast+
qed

text \<open>A cancel of a node that has been canceled and has the shape the first cancel left.\<close>

lemma later_cancel_node:
  assumes kind: "c = cancelCtx p a \<or> c = timerCtx p a d"
    and run: "cancel_fuel n t c rm e = Inr t'"
    and er: "err (cells t ! a) \<noteq> None"
    and dn: "done_ch (cells t ! a) \<noteq> None"
    and ch: "children (cells t ! a) = None"
  shows "err (cells t' ! a) = err (cells t ! a) \<and> done_ch (cells t' ! a) = done_ch (cells t ! a)
       \<and> children (cells t' ! a) = children (cells t ! a) \<and> (c = cancelCtx p a \<longrightarrow> t' = t)"
  using kind
proof
  assume c: "c = cancelCtx p a"
  with run obtain m where "cancelCtx_cancel m t p a rm e = Inr t'"
    by (cases n) auto
  from cancelCtx_cancel_noop(1) [OF this er] show ?thesis by simp
next
  assume c: "c = timerCtx p a d"
  with run obtain m s1 s2 where
    cc: "cancelCtx_cancel m t p a False e = Inr s1" and
    rmv: "(if rm then removeChild s1 p (timerCtx p a d) else Inr s1) = Inr s2" and
    st: "stop_timer s2 a = Inr t'"
    by (auto elim: timerCtx_cancel_run)
  have s1: "s1 = t" and a: "a < length (cells t)"
    using cancelCtx_cancel_noop [OF cc er] by simp_all
  have e12: "evolves e t s2"
    using rmv s1 by (auto simp: evolves_refl evolves_removeChild split: if_splits)
  have a2: "a < length (cells s2)" using a evolves_length [OF e12] by simp
  have e2: "evolves e s2 t'" using st by (rule evolves_stop_timer)
  have ev: "evolves e t t'" using e12 e2 by (rule evolves_trans)
  from er obtain x where x: "err (cells t ! a) = Some x" by auto
  from dn obtain y where y: "done_ch (cells t ! a) = Some y" by auto
  have ch2: "children (cells s2 ! a) = None"
  proof (cases rm)
    case True
    with rmv s1 have r: "removeChild t p (timerCtx p a d) = Inr s2" by simp
    show ?thesis by (rule removeChild_children_None [OF r a ch])
  next
    case False
    with rmv s1 ch show ?thesis by simp
  qed
  have "children (cells t' ! a) = None"
    using stop_timer_children [OF st a2] ch2 by simp
  then show ?thesis
    using evolves_err_Some [OF ev a x] evolves_done_Some [OF ev a y] x y ch c by simp
qed

subsection \<open>Timers and stored channels\<close>

lemma evolves_timer_stopped:
  assumes "evolves e s s'" and "a < length (cells s)" and "timer (cells s ! a) = Some t"
    and "timer (cells s' ! a) = None"
  shows "t < length (timers s') \<and> \<not> active (timers s' ! t)"
  using assms by (auto simp: evolves_def)

lemma Done_canceler_stored:
  assumes "c = cancelCtx p a \<or> c = timerCtx p a d" and "a < length (cells s)"
    and "done_ch (cells s ! a) = Some dn"
  shows "Done s c = Inr (s, Some dn)"
  using assms by (auto simp: cancelCtx_Done_def)

lemma cancel_fuel_timer_released:
  assumes "cancel_fuel n s (timerCtx p a d) rm e = Inr s'"
  shows "timer (cells s' ! a) = None"
  using assms by (auto elim!: timerCtx_cancel_run dest: stop_timer_timer)

subsection \<open>propagateCancel\<close>

lemma cancelCtx_Done_other_cell:
  "cancelCtx_Done s b = Inr (s', dn) \<Longrightarrow> a \<noteq> b \<Longrightarrow> a < length (cells s) \<Longrightarrow>
     cells s' ! a = cells s ! a"
  by (auto simp: cancelCtx_Done_def Let_def nth_cells_upd_cell split: if_splits option.splits)

lemma Done_other_cell:
  "Done s c = Inr (s', dn) \<Longrightarrow> a \<notin> addrs c \<Longrightarrow> a < length (cells s) \<Longrightarrow>
     cells s' ! a = cells s ! a"
  by (induction c) (auto simp: cancelCtx_Done_other_cell)

lemma parentCancelCtx_Done:
  assumes "parentCancelCtx s c = Inr (s', r)"
  obtains dn where "Done s c = Inr (s', dn)"
  using assms
  by (auto simp: parentCancelCtx_def split: sum.splits prod.splits if_splits val.splits)

lemma parentCancelCtx_other_cell:
  assumes "parentCancelCtx s c = Inr (s', r)" and "a \<notin> addrs c" and "a < length (cells s)"
  shows "cells s' ! a = cells s ! a"
  using assms by (auto elim!: parentCancelCtx_Done dest: Done_other_cell)

lemma Done_length:
  "Done s c = Inr (s', dn) \<Longrightarrow> length (cells s') = length (cells s)"
  using evolves_Done [of s c s' dn None] by (simp add: evolves_length)


lemma evolves_linking_state: "evolves e s (linking_state s parent)"
proof (cases "Done s parent")
  case (Inl f)
  then show ?thesis by (simp add: linking_state_def evolves_refl)
next
  case (Inr x)
  obtain s1 dn where x: "x = (s1, dn)" by (cases x)
  have e1: "evolves e s s1" using Inr x by (auto intro: evolves_Done)
  show ?thesis
  proof (cases "\<exists>d. dn = Some d \<and> \<not> is_closed s1 d")
    case False
    with Inr x e1 show ?thesis by (auto simp: linking_state_def split: option.splits)
  next
    case True
    then obtain d where d: "dn = Some d" "\<not> is_closed s1 d" by auto
    show ?thesis
    proof (cases "parentCancelCtx s1 parent")
      case (Inl f)
      with Inr x d e1 show ?thesis by (simp add: linking_state_def)
    next
      case (Inr y)
      obtain s2 r where y: "y = (s2, r)" by (cases y)
      have "evolves e s1 s2" using Inr y by (auto intro: evolves_parentCancelCtx)
      with e1 have "evolves e s s2" by (rule evolves_trans)
      with \<open>Done s parent = Inr x\<close> x d Inr y show ?thesis by (simp add: linking_state_def)
    qed
  qed
qed

lemma linking_state_other_cell:
  assumes "a \<notin> addrs parent" and "a < length (cells s)"
  shows "cells (linking_state s parent) ! a = cells s ! a"
proof (cases "Done s parent")
  case (Inl f)
  then show ?thesis by (simp add: linking_state_def)
next
  case (Inr x)
  obtain s1 dn where x: "x = (s1, dn)" by (cases x)
  have c1: "cells s1 ! a = cells s ! a" and l1: "length (cells s1) = length (cells s)"
    using Inr x assms by (auto dest: Done_other_cell Done_length)
  show ?thesis
  proof (cases "\<exists>d. dn = Some d \<and> \<not> is_closed s1 d")
    case False
    with Inr x c1 show ?thesis by (auto simp: linking_state_def split: option.splits)
  next
    case True
    then obtain d where d: "dn = Some d" "\<not> is_closed s1 d" by auto
    show ?thesis
    proof (cases "parentCancelCtx s1 parent")
      case (Inl f)
      with Inr x d c1 show ?thesis by (simp add: linking_state_def)
    next
      case (Inr y)
      obtain s2 r where y: "y = (s2, r)" by (cases y)
      have "cells s2 ! a = cells s1 ! a"
        using Inr y assms l1 by (auto dest: parentCancelCtx_other_cell)
      with c1 \<open>Done s parent = Inr x\<close> x d Inr y show ?thesis by (simp add: linking_state_def)
    qed
  qed
qed

text \<open>\<^verbatim>\<open>propagateCancel\<close> on a parent that it finds canceled, and on one that it does not.\<close>

lemma propagateCancel_canceled:
  assumes "canceled_cause s parent = Some e"
  shows "propagateCancel s parent child = cancel (linking_state s parent) child False (Some e)"
  using assms
  by (auto simp: canceled_cause_def propagateCancel_def linking_state_def
      split: sum.splits prod.splits option.splits if_splits)

lemma cancel_fuel_nil_cause: "cancel_fuel n s c rm None \<noteq> Inr s'"
proof (cases n)
  case 0
  then show ?thesis by simp
next
  case (Suc m)
  then show ?thesis by (cases c) (simp_all add: cancelCtx_cancel.simps)
qed

lemma propagateCancel_not_canceled:
  assumes "canceled_cause s parent = None" and "propagateCancel s parent child = Inr s'"
  shows "evolves e s s'"
proof -
  from assms(2) obtain s1 dn where dn: "Done s parent = Inr (s1, dn)"
    by (auto simp: propagateCancel_def split: sum.splits)
  have e1: "evolves e s s1" using dn by (rule evolves_Done)
  show ?thesis
  proof (cases dn)
    case None
    with assms(2) dn e1 show ?thesis by (simp add: propagateCancel_def)
  next
    case (Some d)
    show ?thesis
    proof (cases "is_closed s1 d")
      case True
      with assms dn Some have False
        by (auto simp: propagateCancel_def canceled_cause_def cancel_def cancel_fuel_nil_cause
            split: sum.splits)
      then show ?thesis ..
    next
      case False
      with assms(2) dn Some obtain s2 r where p: "parentCancelCtx s1 parent = Inr (s2, r)"
        by (auto simp: propagateCancel_def split: sum.splits)
      have e2: "evolves e s1 s2" using p by (rule evolves_parentCancelCtx)
      have "evolves e s2 s'"
      proof (cases r)
        case None
        with assms(2) dn Some False p have "s' = s2\<lparr>goroutines := goroutines s2 + 1,
            waiters := (parent, child) # waiters s2\<rparr>"
          by (simp add: propagateCancel_def)
        then show ?thesis by (simp add: evolves_def cell_evolves_refl)
      next
        case (Some q)
        with assms(1) dn \<open>dn = Some d\<close> False p have "err (cells s2 ! q) = None"
          by (simp add: canceled_cause_def)
        with assms(2) dn \<open>dn = Some d\<close> False p Some
        have "s' = upd_cell q (\<lambda>c. c\<lparr>children := Some (List.insert child (child_list c))\<rparr>) s2"
          by (simp add: propagateCancel_def)
        then show ?thesis
          by (intro evolves_cells) (auto simp: nth_cells_upd_cell cell_evolves_def)
      qed
      with e1 e2 show ?thesis by (blast intro: evolves_trans)
    qed
  qed
qed

text \<open>\<^verbatim>\<open>cancel(false, e)\<close> on a node whose cell is as \<^verbatim>\<open>newCancelCtx\<close> left it.\<close>

lemma cancel_new_cell:
  assumes kind: "c = cancelCtx p a \<or> c = timerCtx p a d"
    and a: "a < length (cells s)" and new: "cells s ! a = new_cell"
  shows "cancel s c False (Some e) =
           Inr (upd_cell a (\<lambda>x. x\<lparr>done_ch := Some closedchan, err := Some e\<rparr>) s)"
proof -
  let ?s' = "upd_cell a (\<lambda>x. x\<lparr>done_ch := Some closedchan, err := Some e\<rparr>) s"
  have live: "err (cells s ! a) = None" using new by (simp add: new_cell_def)
  have sd: "signal_done (upd_cell a (\<lambda>c. c\<lparr>err := Some e\<rparr>) s) a =
      Inr (upd_cell a (\<lambda>c. c\<lparr>done_ch := Some closedchan\<rparr>) (upd_cell a (\<lambda>c. c\<lparr>err := Some e\<rparr>) s))"
    using a new by (simp add: signal_done_def nth_cells_upd_cell new_cell_def)
  have fin: "upd_cell a (\<lambda>c. c\<lparr>children := None\<rparr>)
      (upd_cell a (\<lambda>c. c\<lparr>done_ch := Some closedchan\<rparr>) (upd_cell a (\<lambda>c. c\<lparr>err := Some e\<rparr>) s)) = ?s'"
    using a new by (simp add: upd_cell_def new_cell_def)
  have cc: "cancelCtx_cancel n s p a False (Some e) = Inr ?s'" for n
    using a new
    by (simp add: cancelCtx_cancel_unfold_live [OF _ a live] sd nth_cells_upd_cell
        child_list_def new_cell_def fin)
  have st: "stop_timer ?s' a = Inr ?s'"
    using a new by (simp add: stop_timer_def nth_cells_upd_cell new_cell_def)
  from kind show ?thesis
    by (auto simp: cancel_def cc st)
qed

lemma alloc_cell_cells:
  "length (cells (alloc_cell s)) = Suc (length (cells s))"
  "cells (alloc_cell s) ! length (cells s) = new_cell"
  "timers (alloc_cell s) = timers s"
  by (simp_all add: alloc_cell_def)

subsection \<open>The cascade to the tracked children\<close>


lemma evolves_None_err:
  "evolves None s s' \<Longrightarrow> b < length (cells s) \<Longrightarrow> err (cells s' ! b) = err (cells s ! b)"
  by (cases "err (cells s ! b)") (auto simp: evolves_def cell_evolves_def)




lemma signal_done_children:
  assumes "signal_done s a = Inr s'" and "b < length (cells s)"
  shows "children (cells s' ! b) = children (cells s ! b)"
proof (cases "done_ch (cells s ! a)")
  case None
  with assms show ?thesis by (auto simp: signal_done_def nth_cells_upd_cell)
next
  case (Some d)
  with assms(1) have "close_chan s d = Inr s'" by (simp add: signal_done_def)
  then show ?thesis by (auto elim: close_chan_Inr)
qed

lemma mark_children:
  assumes "signal_done (upd_cell a (\<lambda>c. c\<lparr>err := e\<rparr>) s) a = Inr s1"
    and "a < length (cells s)" and "b < length (cells s)"
  shows "children (cells s1 ! b) = children (cells s ! b)"
    and "b \<noteq> a \<Longrightarrow> err (cells s1 ! b) = err (cells s ! b)"
    and "length (cells s1) = length (cells s)"
proof -
  let ?s0 = "upd_cell a (\<lambda>c. c\<lparr>err := e\<rparr>) s"
  have b0: "b < length (cells ?s0)" and a0: "a < length (cells ?s0)" using assms(2,3) by simp_all
  show "children (cells s1 ! b) = children (cells s ! b)"
    using signal_done_children [OF assms(1) b0] assms(3) by (simp add: nth_cells_upd_cell)
  show "length (cells s1) = length (cells s)"
    using signal_done_length [OF assms(1) a0] by simp
  show "b \<noteq> a \<Longrightarrow> err (cells s1 ! b) = err (cells s ! b)"
  proof -
    assume ne: "b \<noteq> a"
    have "evolves None ?s0 s1" using assms(1) a0 by (rule evolves_signal_done)
    from evolves_None_err [OF this b0] ne assms(3) show ?thesis
      by (simp add: nth_cells_upd_cell)
  qed
qed









subsection \<open>Tracked descendants are canceled\<close>





text \<open>The tree of the example is what the four constructor calls build.\<close>

lemma st_tree_built:
  "\<exists>s1 s2 s3 f1 f2 f3 f4.
     WithCancel init_state (Some emptyCtx) = Inr (s1, tree_root, f1)
   \<and> WithCancel s1 (Some tree_root) = Inr (s2, tree_a, f2)
   \<and> WithDeadline s2 0 (Some (valueCtx tree_root (KComparable 1) (VAny 5))) 50 =
       Inr (s3, tree_t, f3)
   \<and> WithCancel s3 (Some tree_a) = Inr (st_tree, tree_b, f4)"
  by (simp add: WithCancel_def WithDeadline_def alloc_cell_def propagateCancel_def
      cancelCtx_Done_def parentCancelCtx_def upd_cell_def child_list_def Let_def
      tree_root_def tree_a_def tree_t_def tree_b_def st_tree_def init_state_def new_cell_def)

lemma tracked_st_tree:
  assumes "tracked st_tree tree_root d"
  shows "d = tree_t \<or> d = tree_a \<or> d = tree_b"
  using assms
proof (induction rule: tracked.induct)
  case (child k)
  then show ?case
    by (auto simp: kids_def tree_root_def st_tree_def init_state_def new_cell_def child_list_def)
next
  case (below d k)
  from below.IH show ?case
  proof (elim disjE)
    assume "d = tree_t"
    with below.hyps(2) show ?thesis
      by (simp add: kids_def tree_t_def st_tree_def init_state_def new_cell_def child_list_def)
  next
    assume "d = tree_a"
    with below.hyps(2) show ?thesis
      by (simp add: kids_def tree_a_def st_tree_def init_state_def new_cell_def child_list_def)
  next
    assume "d = tree_b"
    with below.hyps(2) show ?thesis
      by (simp add: kids_def tree_b_def st_tree_def init_state_def new_cell_def child_list_def)
  qed
qed

subsection \<open>On a well-formed state cancel returns\<close>

lemma value_walk_ok: "ctx_ok n c \<Longrightarrow> val_ok n (value_walk c cancelCtxKeyAddr)"
  by (induction c) auto

lemma Value_ok: "ctx_ok n c \<Longrightarrow> val_ok n (Value c cancelCtxKeyAddr)"
  by (cases c) (auto simp: value_walk_ok)

lemma Done_returns:
  "ctx_ok (length (cells s)) c \<Longrightarrow> \<exists>s' dn. Done s c = Inr (s', dn)"
  by (induction c) (auto simp: cancelCtx_Done_def Let_def split: option.splits)

lemma parentCancelCtx_returns:
  assumes "ctx_ok (length (cells s)) c"
  shows "\<exists>s' r. parentCancelCtx s c = Inr (s', r)"
proof -
  from Done_returns [OF assms] obtain s1 dn where d: "Done s c = Inr (s1, dn)" by blast
  have l: "length (cells s1) = length (cells s)" using d by (rule Done_length)
  have v: "val_ok (length (cells s1)) (Value c cancelCtxKeyAddr)"
    using Value_ok [OF assms] l by simp
  show ?thesis
    using d v by (cases "Value c cancelCtxKeyAddr") (auto simp: parentCancelCtx_def)
qed

lemma removeChild_returns:
  assumes "ctx_ok (length (cells s)) parent"
  shows "\<exists>s'. removeChild s parent child = Inr s'"
proof -
  from parentCancelCtx_returns [OF assms] obtain s1 r
    where "parentCancelCtx s parent = Inr (s1, r)" by blast
  then show ?thesis by (cases r) (simp_all add: removeChild_def)
qed

lemma timers_ok_evolves:
  assumes "evolves e s s'" and "timers_ok s"
  shows "timers_ok s'"
  unfolding timers_ok_def
proof (intro allI impI)
  fix a t assume a: "a < length (cells s')" and t: "timer (cells s' ! a) = Some t"
  have a0: "a < length (cells s)" using a evolves_length [OF assms(1)] by simp
  have "timer (cells s' ! a) = timer (cells s ! a) \<or> timer (cells s' ! a) = None"
    using assms(1) a0 by (simp add: evolves_def cell_evolves_def)
  with t have "timer (cells s ! a) = Some t" by auto
  with assms(2) a0 have "t < length (timers s)" by (simp add: timers_ok_def)
  then show "t < length (timers s')" using assms(1) by (simp add: evolves_def)
qed

lemma stop_timer_returns:
  assumes "timers_ok s" and "a < length (cells s)"
  shows "\<exists>s'. stop_timer s a = Inr s'"
  using assms by (cases "timer (cells s ! a)") (auto simp: stop_timer_def timers_ok_def)

lemma stop_timer_cells:
  assumes "stop_timer s a = Inr s'" and "b < length (cells s)"
  shows "err (cells s' ! b) = err (cells s ! b)" and "done_ch (cells s' ! b) = done_ch (cells s ! b)"
    and "closed_chans s' = closed_chans s"
  using assms
  by (auto simp: stop_timer_def nth_cells_upd_cell split: if_splits option.splits)

lemma is_closed_cong: "closed_chans s' = closed_chans s \<Longrightarrow> is_closed s' d = is_closed s d"
  by (cases d) simp_all

lemma wf_stop_timer:
  assumes "stop_timer s a = Inr s'" and "wf_state s"
  shows "wf_state s'"
proof -
  have l: "length (cells s') = length (cells s)" using assms(1) by (rule stop_timer_length)
  have k: "kids_ok s'"
    using assms l unfolding wf_state_def kids_ok_def
    by (simp add: stop_timer_children child_list_def)
  have t: "timers_ok s'"
    using evolves_stop_timer [OF assms(1)] assms(2) by (auto simp: wf_state_def intro: timers_ok_evolves)
  have c: "chans_ok s'"
    using assms(2) l unfolding wf_state_def chans_ok_def
    by (simp add: stop_timer_cells [OF assms(1)] is_closed_cong [OF stop_timer_cells(3) [OF assms(1)]])
  from k t c show ?thesis by (simp add: wf_state_def)
qed

lemma wf_drop_children:
  assumes "wf_state s"
  shows "wf_state (upd_cell a (\<lambda>c. c\<lparr>children := None\<rparr>) s)"
proof -
  let ?s' = "upd_cell a (\<lambda>c. c\<lparr>children := None\<rparr>) s"
  have k: "kids_ok ?s'"
    using assms unfolding wf_state_def kids_ok_def
    by (auto simp: nth_cells_upd_cell child_list_def split: if_splits)
  have t: "timers_ok ?s'"
    using assms unfolding wf_state_def timers_ok_def
    by (auto simp: nth_cells_upd_cell split: if_splits)
  have c: "chans_ok ?s'"
    using assms unfolding wf_state_def chans_ok_def
    by (simp add: nth_cells_upd_cell is_closed_cong [of ?s' s])
  from k t c show ?thesis by (simp add: wf_state_def)
qed

lemma kids_ok_cong:
  assumes "kids_ok s" and "length (cells s') = length (cells s)"
    and "\<And>b. b < length (cells s) \<Longrightarrow> children (cells s' ! b) = children (cells s ! b)"
  shows "kids_ok s'"
  using assms unfolding kids_ok_def by (simp add: child_list_def)

lemma wf_mark_kids_timers:
  assumes wf: "wf_state s" and a: "a < length (cells s)" and live: "err (cells s ! a) = None"
    and sd: "signal_done (upd_cell a (\<lambda>c. c\<lparr>err := e\<rparr>) s) a = Inr s1"
  shows "kids_ok s1" and "timers_ok s1"
proof -
  show "kids_ok s1"
    using wf mark_children(3) [OF sd a a] mark_children(1) [OF sd a]
    by (auto simp: wf_state_def intro: kids_ok_cong [of s])
  have "evolves e s (upd_cell a (\<lambda>c. c\<lparr>err := e\<rparr>) s)" using a live by (rule evolves_set_err)
  moreover have "evolves e (upd_cell a (\<lambda>c. c\<lparr>err := e\<rparr>) s) s1"
    using sd a by (intro evolves_signal_done) simp_all
  ultimately have "evolves e s s1" by (rule evolves_trans)
  then show "timers_ok s1" using wf by (auto simp: wf_state_def intro: timers_ok_evolves)
qed

text \<open>Setting the error of a live node and signaling its channel does not panic.\<close>

lemma mark_returns:
  assumes wf: "wf_state s" and a: "a < length (cells s)" and live: "err (cells s ! a) = None"
    and e: "e \<noteq> None"
  shows "\<exists>s1. signal_done (upd_cell a (\<lambda>c. c\<lparr>err := e\<rparr>) s) a = Inr s1 \<and> wf_state s1"
proof (cases "done_ch (cells s ! a)")
  case None
  let ?s1 = "upd_cell a (\<lambda>c. c\<lparr>done_ch := Some closedchan\<rparr>) (upd_cell a (\<lambda>c. c\<lparr>err := e\<rparr>) s)"
  have run: "signal_done (upd_cell a (\<lambda>c. c\<lparr>err := e\<rparr>) s) a = Inr ?s1"
    using None a by (simp add: signal_done_def nth_cells_upd_cell)
  have cell: "cells ?s1 ! b =
      (if b = a then (cells s ! a)\<lparr>err := e, done_ch := Some closedchan\<rparr> else cells s ! b)"
    if "b < length (cells s)" for b
    using that a by (simp add: nth_cells_upd_cell)
  have k: "kids_ok ?s1" and t: "timers_ok ?s1"
    using wf_mark_kids_timers [OF wf a live run] by simp_all
  have c: "chans_ok ?s1"
    using wf e unfolding wf_state_def chans_ok_def
    by (auto simp: cell is_closed_cong [of ?s1 s] split: if_splits)
  from run k t c show ?thesis by (simp add: wf_state_def)
next
  case (Some d)
  have op: "\<not> is_closed s d" using wf a live Some by (simp add: wf_state_def chans_ok_def)
  then obtain n where d: "d = Chan n" and n: "n \<notin> closed_chans s" by (cases d) auto
  let ?s0 = "upd_cell a (\<lambda>c. c\<lparr>err := e\<rparr>) s"
  let ?s1 = "?s0\<lparr>closed_chans := insert n (closed_chans ?s0)\<rparr>"
  have run: "signal_done ?s0 a = Inr ?s1"
    using Some a d n by (simp add: signal_done_def nth_cells_upd_cell)
  have cell: "cells ?s0 ! b = (if b = a then (cells s ! a)\<lparr>err := e\<rparr> else cells s ! b)"
    if "b < length (cells s)" for b
    using that a by (simp add: nth_cells_upd_cell)
  have cl: "is_closed ?s1 x \<longleftrightarrow> is_closed s x \<or> x = d" for x
    using d by (cases x) auto
  have k: "kids_ok ?s1" and t: "timers_ok ?s1"
    using wf_mark_kids_timers [OF wf a live run] by simp_all
  have c1: "\<forall>b < length (cells ?s1). err (cells ?s1 ! b) = None \<longrightarrow>
        (\<forall>x. done_ch (cells ?s1 ! b) = Some x \<longrightarrow> \<not> is_closed ?s1 x)"
  proof (intro allI impI)
    fix b x assume b: "b < length (cells ?s1)" and lb: "err (cells ?s1 ! b) = None"
      and x: "done_ch (cells ?s1 ! b) = Some x"
    from b have b0: "b < length (cells s)" by simp
    from lb e b0 have ne: "b \<noteq> a" by (auto simp: cell split: if_splits)
    with lb x b0 have lb0: "err (cells s ! b) = None" and x0: "done_ch (cells s ! b) = Some x"
      by (simp_all add: cell)
    have "\<not> is_closed s x" using wf b0 lb0 x0 by (simp add: wf_state_def chans_ok_def)
    moreover have "x \<noteq> d"
      using wf a b0 ne live lb0 Some x0 unfolding wf_state_def chans_ok_def by (metis option.distinct(1) option.inject)
    ultimately show "\<not> is_closed ?s1 x" using cl by blast
  qed
  have c2: "\<forall>b < length (cells ?s1). \<forall>c < length (cells ?s1).
        b \<noteq> c \<longrightarrow> err (cells ?s1 ! b) = None \<longrightarrow> err (cells ?s1 ! c) = None \<longrightarrow>
        done_ch (cells ?s1 ! b) \<noteq> None \<longrightarrow> done_ch (cells ?s1 ! b) \<noteq> done_ch (cells ?s1 ! c)"
  proof (intro allI impI)
    fix b c assume b: "b < length (cells ?s1)" and c: "c < length (cells ?s1)"
      and bc: "b \<noteq> c" and lb: "err (cells ?s1 ! b) = None" and lc: "err (cells ?s1 ! c) = None"
      and db: "done_ch (cells ?s1 ! b) \<noteq> None"
    from b c have b0: "b < length (cells s)" and c0: "c < length (cells s)" by simp_all
    from lb lc e b0 c0 have "b \<noteq> a" "c \<noteq> a" by (auto simp: cell split: if_splits)
    with lb lc db b0 c0 have "err (cells s ! b) = None" "err (cells s ! c) = None"
      "done_ch (cells s ! b) \<noteq> None"
      and eq: "cells ?s0 ! b = cells s ! b" "cells ?s0 ! c = cells s ! c"
      by (simp_all add: cell)
    with wf b0 c0 bc have "done_ch (cells s ! b) \<noteq> done_ch (cells s ! c)"
      unfolding wf_state_def chans_ok_def by blast
    with eq show "done_ch (cells ?s1 ! b) \<noteq> done_ch (cells ?s1 ! c)" by simp
  qed
  have c: "chans_ok ?s1" unfolding chans_ok_def using c1 c2 by blast
  from run k t c show ?thesis by (simp add: wf_state_def)
qed

text \<open>
  On a well-formed state \<^verbatim>\<open>cancel\<close> returns: a nested run, which does not detach, on every
  \<^verbatim>\<open>canceler\<close> that has a cell, and leaves the state well-formed; the outer run, which may
  detach, on a node all of whose references are to cells.
\<close>

lemma cancel_fuel_returns:
  shows "wf_state t1 \<Longrightarrow> live_count t1 < n1 \<Longrightarrow> e1 \<noteq> None \<Longrightarrow>
           \<exists>b. cell_of c1 = Some b \<and> b < length (cells t1) \<Longrightarrow>
           rm1 \<longrightarrow> ctx_ok (length (cells t1)) c1 \<Longrightarrow>
           \<exists>u. cancel_fuel n1 t1 c1 rm1 e1 = Inr u \<and> (\<not> rm1 \<longrightarrow> wf_state u)"
    and "wf_state t2 \<Longrightarrow> live_count t2 \<le> n2 \<Longrightarrow> e2 \<noteq> None \<Longrightarrow>
           a2 < length (cells t2) \<Longrightarrow>
           rm2 \<longrightarrow> ctx_ok (length (cells t2)) p2 \<Longrightarrow>
           \<exists>u. cancelCtx_cancel n2 t2 p2 a2 rm2 e2 = Inr u \<and> (\<not> rm2 \<longrightarrow> wf_state u)"
    and "wf_state t3 \<Longrightarrow> live_count t3 < n3 \<Longrightarrow> e3 \<noteq> None \<Longrightarrow>
           \<forall>k \<in> set cs3. \<exists>b. cell_of k = Some b \<and> b < length (cells t3) \<Longrightarrow>
           \<exists>u. cancel_children n3 t3 cs3 e3 = Inr u \<and> wf_state u"
proof (induction n1 t1 c1 rm1 e1 and n2 t2 p2 a2 rm2 e2 and n3 t3 cs3 e3
       rule: cancel_fuel_cancelCtx_cancel_cancel_children.induct)
  case (1 s c rm e)
  then show ?case by simp
next
  case (2 n s parent a rm e)
  from "2.prems" have "\<exists>u. cancelCtx_cancel n s parent a rm e = Inr u \<and> (\<not> rm \<longrightarrow> wf_state u)"
    by (intro "2.IH") auto
  then show ?case by simp
next
  case (3 n s parent a d rm e)
  from "3.prems" have "\<exists>u. cancelCtx_cancel n s parent a False e = Inr u \<and> (\<not> False \<longrightarrow> wf_state u)"
    by (intro "3.IH") auto
  then obtain s1 where cc: "cancelCtx_cancel n s parent a False e = Inr s1" and wf1: "wf_state s1"
    by auto
  have l1: "length (cells s1) = length (cells s)"
    using evolves_length [OF cancel_evolves(2) [OF cc]] .
  have a: "a < length (cells s)" using "3.prems"(4) by simp
  obtain s2 where rmv: "(if rm then removeChild s1 parent (timerCtx parent a d) else Inr s1) = Inr s2"
  proof (cases rm)
    case True
    with "3.prems"(5) l1 have "ctx_ok (length (cells s1)) parent" by simp
    from removeChild_returns [OF this, of "timerCtx parent a d"] True that show ?thesis by auto
  next
    case False
    with that show ?thesis by simp
  qed
  have e12: "evolves e s1 s2"
    using rmv by (auto simp: evolves_refl evolves_removeChild split: if_splits)
  have t2: "timers_ok s2" using e12 wf1 by (auto simp: wf_state_def intro: timers_ok_evolves)
  have a2: "a < length (cells s2)" using a l1 evolves_length [OF e12] by simp
  from stop_timer_returns [OF t2 a2] obtain s' where st: "stop_timer s2 a = Inr s'" by blast
  have "\<not> rm \<longrightarrow> wf_state s'"
  proof
    assume "\<not> rm"
    with rmv have "s2 = s1" by simp
    with st wf1 show "wf_state s'" by (auto intro: wf_stop_timer)
  qed
  with cc rmv st show ?case by simp
next
  case (4 n s rm e)
  then show ?case by simp
next
  case (5 n s parent k v rm e)
  then show ?case by simp
next
  case (6 n s dl dn er vs rm e)
  then show ?case by simp
next
  case (7 n s parent a rm e)
  note wf = "7.prems"(1) and e = "7.prems"(3) and a = "7.prems"(4)
  show ?case
  proof (cases "err (cells s ! a) = None")
    case False
    then have "cancelCtx_cancel n s parent a rm e = Inr s"
      using e a by (simp add: cancelCtx_cancel.simps del: not_None_eq)
    with wf show ?thesis by simp
  next
    case True
    let ?s0 = "upd_cell a (\<lambda>c. c\<lparr>err := e\<rparr>) s"
    from mark_returns [OF wf a True e] obtain s1 where
      sd: "signal_done ?s0 a = Inr s1" and wf1: "wf_state s1" by blast
    have l1: "length (cells s1) = length (cells s)" using mark_children(3) [OF sd a a] .
    have "live_count s1 \<le> live_count ?s0"
      using sd a by (intro live_count_signal_done [of ?s0 a]) simp_all
    moreover have "live_count ?s0 < live_count s" using a True e by (rule live_count_set_err)
    ultimately have lc: "live_count s1 < n" using "7.prems"(2) by simp
    have kids: "\<forall>k \<in> set (child_list (cells s1 ! a)). \<exists>b. cell_of k = Some b \<and> b < length (cells s1)"
      using wf1 a l1 by (simp add: wf_state_def kids_ok_def)
    have "\<exists>u. cancel_children n s1 (child_list (cells s1 ! a)) e = Inr u \<and> wf_state u"
      using e a True sd wf1 lc kids by (intro "7.IH") simp_all
    then obtain s2 where cc: "cancel_children n s1 (child_list (cells s1 ! a)) e = Inr s2"
      and wf2: "wf_state s2" by blast
    let ?s3 = "upd_cell a (\<lambda>c. c\<lparr>children := None\<rparr>) s2"
    have wf3: "wf_state ?s3" using wf2 by (rule wf_drop_children)
    have l3: "length (cells ?s3) = length (cells s)"
      using evolves_length [OF cancel_evolves(3) [OF cc]] l1 by simp
    show ?thesis
    proof (cases rm)
      case False
      with sd cc wf3 show ?thesis
        by (simp add: cancelCtx_cancel_unfold_live [OF e a True])
    next
      case rm: True
      with "7.prems"(5) l3 have "ctx_ok (length (cells ?s3)) parent" by simp
      from removeChild_returns [OF this, of "cancelCtx parent a"] obtain s'
        where "removeChild ?s3 parent (cancelCtx parent a) = Inr s'" by blast
      with sd cc rm show ?thesis
        by (simp add: cancelCtx_cancel_unfold_live [OF e a True])
    qed
  qed
next
  case (8 n s e)
  then show ?case by simp
next
  case (9 n s child rest e)
  from "9.prems" have "\<exists>u. cancel_fuel n s child False e = Inr u \<and> (\<not> False \<longrightarrow> wf_state u)"
    by (intro "9.IH"(1)) auto
  then obtain s1 where c1: "cancel_fuel n s child False e = Inr s1" and wf1: "wf_state s1"
    by auto
  have ev: "evolves e s s1" using c1 by (rule cancel_evolves(1))
  have l1: "length (cells s1) = length (cells s)" using ev by (rule evolves_length)
  have lc: "live_count s1 < n" using live_count_evolves [OF ev] "9.prems"(2) by simp
  have "\<exists>u. cancel_children n s1 rest e = Inr u \<and> wf_state u"
    using c1 wf1 lc "9.prems"(3,4) l1 by (intro "9.IH"(2)) simp_all
  with c1 show ?case by simp
qed

lemma cancel_returns:
  assumes "wf_state s" and "cell_of c = Some a" and "ctx_ok (length (cells s)) c"
  shows "\<exists>s'. cancel s c rm (Some e) = Inr s'"
proof -
  have a: "a < length (cells s)" using assms(2,3) by (cases c) auto
  have "\<exists>u. cancel_fuel (Suc (length (cells s))) s c rm (Some e) = Inr u \<and> (\<not> rm \<longrightarrow> wf_state u)"
    using assms a by (intro cancel_fuel_returns(1)) (simp_all add: live_count_le_length le_imp_less_Suc)
  then show ?thesis by (auto simp: cancel_def)
qed

subsection \<open>Finding the node that tracks a child\<close>













subsection \<open>What a run of cancel leaves as it is\<close>




lemma timers_cancelCtx_Done: "cancelCtx_Done s a = Inr (s', dn) \<Longrightarrow> timers s' = timers s"
  by (auto simp: cancelCtx_Done_def Let_def split: if_splits option.splits)

lemma timers_Done: "Done s c = Inr (s', dn) \<Longrightarrow> timers s' = timers s"
  by (induction c) (auto simp: timers_cancelCtx_Done)

lemma timers_parentCancelCtx: "parentCancelCtx s c = Inr (s', r) \<Longrightarrow> timers s' = timers s"
  by (auto elim!: parentCancelCtx_Done dest: timers_Done)

























subsection \<open>The shape of the tree is kept by every call\<close>
































lemma tree_kept_refl: "tree_kept s s"
  by (simp add: tree_kept_def)




lemma propagateCancel_length:
  assumes "propagateCancel s parent c = Inr s'"
  shows "length (cells s') = length (cells s)"
proof (cases "canceled_cause s parent")
  case None
  then have "evolves None s s'" using assms by (rule propagateCancel_not_canceled)
  then show ?thesis by (rule evolves_length)
next
  case (Some e)
  let ?t = "linking_state s parent"
  have "cancel ?t c False (Some e) = Inr s'"
    using propagateCancel_canceled [OF Some, of c] assms by simp
  then have "evolves (Some e) ?t s'" unfolding cancel_def by (rule cancel_evolves(1))
  moreover have "evolves (Some e) s ?t" by (rule evolves_linking_state)
  ultimately have "evolves (Some e) s s'" by (blast intro: evolves_trans)
  then show ?thesis by (rule evolves_length)
qed


subsection \<open>Every state that is reached has the shape of a tree\<close>







subsection \<open>The goroutines of propagateCancel\<close>


















subsection \<open>The states that are reached\<close>





section \<open>The claims\<close>

subsection \<open>Value\<close>

lemma Value_value_walk: "Value c k = value_walk c k"
  by (cases c) auto

lemma with_values_value_walk:
  "with_values base kvs = Inr c \<Longrightarrow>
     value_walk c k = (case map_of kvs k of None \<Rightarrow> value_walk base k | Some v \<Rightarrow> v)"
proof (induction kvs arbitrary: c)
  case Nil
  then show ?case by simp
next
  case (Cons kv kvs)
  obtain k' v' where kv: "kv = (k', v')" by (cases kv)
  from Cons.prems kv obtain p where p: "with_values base kvs = Inr p"
    and c: "WithValue (Some p) k' v' = Inr c"
    by (auto split: sum.splits)
  from c have "c = valueCtx p k' v'" by (auto simp: WithValue_def split: if_splits)
  with Cons.IH [OF p] kv show ?case by simp
qed

text \<open>
  C5.  On a chain of value-binding nodes that \<^verbatim>\<open>WithValue\<close> has built over a context,
  \<^verbatim>\<open>Value(k)\<close> called on the last node returns the value of the first binding of \<open>k\<close> on the
  way to the root, the node itself included; when no node of the chain binds \<open>k\<close> it
  returns what the context below the chain returns, which is nil when that is the root.
  Every node of a chain is the last node of a shorter chain.
\<close>

theorem C5_value_nearest_binding:
  assumes "with_values base kvs = Inr c"
  shows "Value c k = (case map_of kvs k of None \<Rightarrow> Value base k | Some v \<Rightarrow> v)
       \<and> (base = emptyCtx \<and> map_of kvs k = None \<longrightarrow> Value c k = VNil)"
proof -
  have "Value c k = (case map_of kvs k of None \<Rightarrow> Value base k | Some v \<Rightarrow> v)"
    using with_values_value_walk [OF assms, of k]
    by (simp add: Value_value_walk split: option.splits)
  then show ?thesis by auto
qed

theorem C5_witness:
  "with_values emptyCtx
     [(KComparable 1, VAny 10), (KComparable 2, VAny 20), (KComparable 1, VAny 30)] =
     Inr (valueCtx (valueCtx (valueCtx emptyCtx (KComparable 1) (VAny 30))
                      (KComparable 2) (VAny 20)) (KComparable 1) (VAny 10))
   \<and> Value (valueCtx (valueCtx (valueCtx emptyCtx (KComparable 1) (VAny 30))
                      (KComparable 2) (VAny 20)) (KComparable 1) (VAny 10)) (KComparable 1) =
       VAny 10
   \<and> Value (valueCtx (valueCtx (valueCtx emptyCtx (KComparable 1) (VAny 30))
                      (KComparable 2) (VAny 20)) (KComparable 1) (VAny 10)) (KComparable 3) =
       VNil"
proof -
  let ?kvs = "[(KComparable 1, VAny 10), (KComparable 2, VAny 20), (KComparable 1, VAny 30)]"
  let ?c = "valueCtx (valueCtx (valueCtx emptyCtx (KComparable 1) (VAny 30))
                      (KComparable 2) (VAny 20)) (KComparable 1) (VAny 10)"
  have built: "with_values emptyCtx ?kvs = Inr ?c" by (simp add: WithValue_def)
  have "Value ?c (KComparable 1) = VAny 10"
    using C5_value_nearest_binding [OF built, of "KComparable 1"] by simp
  moreover have "Value ?c (KComparable 3) = VNil"
    using C5_value_nearest_binding [OF built, of "KComparable 3"] by simp
  ultimately show ?thesis using built by simp
qed

subsection \<open>Deadline\<close>

text \<open>
  C4, as the code has it.  \<^verbatim>\<open>Deadline()\<close> of any context is decided by the first node on
  its path to the root (the context itself included) that is a deadline node or a context
  from outside the package: it is the deadline of that deadline node, or what the
  \<^verbatim>\<open>Deadline()\<close> of that outside context answers, and it is absent when the path has no
  such node.  So on a path of nodes of the package \<^verbatim>\<open>Deadline()\<close> is absent exactly when
  the path has no deadline node, and a value-binding node or a plain cancelable node
  below a deadline node reports the deadline \<open>d\<close> of that node.  The node that \<^verbatim>\<open>WithDeadline\<close>
  returns when the deadline of the parent is earlier is a plain cancelable node, and it
  reports the deadline of the parent.
\<close>

theorem C4_deadline_of_nearest_deadline_node:
  "Deadline c =
     (case find (\<lambda>x. is_timerCtx x \<or> is_otherCtx x) (path_to_root c) of
        None \<Rightarrow> None
      | Some x \<Rightarrow>
          (case x of
             timerCtx p a d \<Rightarrow> Some d
           | otherCtx dl dn er vs \<Rightarrow> dl
           | _ \<Rightarrow> None))
   \<and> ((\<forall>x \<in> set (path_to_root c). \<not> is_otherCtx x) \<longrightarrow>
        (Deadline c = None \<longleftrightarrow> (\<forall>x \<in> set (path_to_root c). \<not> is_timerCtx x)))
   \<and> (Deadline parent = Some cur \<and> cur < d' \<and>
      WithDeadline s now (Some parent) d' = Inr (s', c', f) \<longrightarrow>
        c' = cancelCtx parent (length (cells s)) \<and> \<not> is_timerCtx c' \<and> Deadline c' = Some cur)
   \<and> Deadline (timerCtx p a d) = Some d
   \<and> Deadline (cancelCtx (timerCtx p a d) b) = Some d
   \<and> Deadline (valueCtx (timerCtx p a d) k v) = Some d
   \<and> Deadline (cancelCtx (valueCtx emptyCtx k v) b) = None"
proof (intro conjI)
  show "Deadline c =
     (case find (\<lambda>x. is_timerCtx x \<or> is_otherCtx x) (path_to_root c) of
        None \<Rightarrow> None
      | Some x \<Rightarrow>
          (case x of
             timerCtx p a d \<Rightarrow> Some d
           | otherCtx dl dn er vs \<Rightarrow> dl
           | _ \<Rightarrow> None))"
    by (induction c) simp_all
  show "(\<forall>x \<in> set (path_to_root c). \<not> is_otherCtx x) \<longrightarrow>
        (Deadline c = None \<longleftrightarrow> (\<forall>x \<in> set (path_to_root c). \<not> is_timerCtx x))"
    by (induction c) simp_all
  show "Deadline parent = Some cur \<and> cur < d' \<and>
      WithDeadline s now (Some parent) d' = Inr (s', c', f) \<longrightarrow>
        c' = cancelCtx parent (length (cells s)) \<and> \<not> is_timerCtx c' \<and> Deadline c' = Some cur"
    by (auto simp: WithDeadline_def WithCancel_def Let_def split: sum.splits)
qed simp_all

theorem C4_witness:
  "Deadline (timerCtx emptyCtx 0 10) = Some 10 \<and> (10::int) < 20
   \<and> WithDeadline st_deadline 0 (Some (timerCtx emptyCtx 0 10)) 20 =
       Inr (st_deadline_child, cancelCtx (timerCtx emptyCtx 0 10) 1,
            CancelFunc (cancelCtx (timerCtx emptyCtx 0 10) 1) True Canceled)
   \<and> Deadline (cancelCtx (timerCtx emptyCtx 0 10) 1) = Some 10
   \<and> path_to_root (valueCtx (cancelCtx emptyCtx 0) (KComparable 1) VNil) =
       [valueCtx (cancelCtx emptyCtx 0) (KComparable 1) VNil, cancelCtx emptyCtx 0, emptyCtx]
   \<and> Deadline (valueCtx (cancelCtx emptyCtx 0) (KComparable 1) VNil) = None"
proof -
  let ?p = "timerCtx emptyCtx 0 10"
  let ?v = "valueCtx (cancelCtx emptyCtx 0) (KComparable 1) VNil"
  have run: "WithDeadline st_deadline 0 (Some ?p) 20 =
       Inr (st_deadline_child, cancelCtx ?p 1, CancelFunc (cancelCtx ?p 1) True Canceled)"
    by (simp add: WithDeadline_def WithCancel_def alloc_cell_def propagateCancel_def
        cancelCtx_Done_def st_deadline_def st_deadline_child_def
        init_state_def new_cell_def upd_cell_def parentCancelCtx_def child_list_def Let_def)
  have dl: "Deadline ?p = Some 10" and lt: "(10::int) < 20" by simp_all
  have no: "\<forall>x \<in> set (path_to_root ?v). \<not> is_otherCtx x"
    and nt: "\<forall>x \<in> set (path_to_root ?v). \<not> is_timerCtx x"
    by simp_all
  note w = C4_deadline_of_nearest_deadline_node
      [of ?v ?p 10 20 st_deadline 0 st_deadline_child "cancelCtx ?p 1"
          "CancelFunc (cancelCtx ?p 1) True Canceled"]
  from w dl lt run have "Deadline (cancelCtx ?p 1) = Some 10" by blast
  moreover from w no nt have "Deadline ?v = None" by blast
  moreover have "path_to_root ?v = [?v, cancelCtx emptyCtx 0, emptyCtx]" by simp
  ultimately show ?thesis using dl lt run by (intro conjI)
qed

text \<open>
  C4 as stated fails: with a deadline node of deadline 10 as parent and the later
  deadline 20, \<^verbatim>\<open>WithDeadline\<close> returns a plain \<^verbatim>\<open>cancelCtx\<close>, and its \<^verbatim>\<open>Deadline()\<close> reports
  the deadline 10 of the parent.
\<close>

theorem C4_counterexample:
  "WithDeadline init_state 0 (Some emptyCtx) 10 =
     Inr (st_deadline, timerCtx emptyCtx 0 10, CancelFunc (timerCtx emptyCtx 0 10) True Canceled)
   \<and> WithDeadline st_deadline 0 (Some (timerCtx emptyCtx 0 10)) 20 =
       Inr (st_deadline_child, cancelCtx (timerCtx emptyCtx 0 10) 1,
            CancelFunc (cancelCtx (timerCtx emptyCtx 0 10) 1) True Canceled)
   \<and> \<not> is_timerCtx (cancelCtx (timerCtx emptyCtx 0 10) 1)
   \<and> Deadline (cancelCtx (timerCtx emptyCtx 0 10) 1) = Some 10"
  by (simp add: WithDeadline_def WithCancel_def alloc_cell_def propagateCancel_def
      cancelCtx_Done_def st_deadline_def st_deadline_child_def
      init_state_def new_cell_def upd_cell_def parentCancelCtx_def child_list_def Let_def)

subsection \<open>WithValue with a nil value\<close>

text \<open>
  C10.  \<^verbatim>\<open>WithValue\<close> checks the parent and the key only: for a parent that is not nil
  and a key that is not nil and comparable it returns the binding node for every
  value, nil included; \<^verbatim>\<open>Value\<close> of that key on the node with the nil value returns nil,
  which is also what \<^verbatim>\<open>Value\<close> returns on a context where the key was never bound.
\<close>

theorem C10_WithValue_nil_value:
  assumes "key \<noteq> KNil" and "Comparable key"
  shows "WithValue (Some parent) key v = Inr (valueCtx parent key v)
       \<and> Value (valueCtx parent key VNil) key = VNil
       \<and> Value (valueCtx parent key VNil) key = Value emptyCtx key"
  using assms by (simp add: WithValue_def)

theorem C10_witness:
  "KComparable 7 \<noteq> KNil \<and> Comparable (KComparable 7)
   \<and> WithValue (Some (valueCtx emptyCtx (KComparable 7) (VAny 5))) (KComparable 7) VNil =
       Inr (valueCtx (valueCtx emptyCtx (KComparable 7) (VAny 5)) (KComparable 7) VNil)
   \<and> Value (valueCtx (valueCtx emptyCtx (KComparable 7) (VAny 5)) (KComparable 7) VNil)
       (KComparable 7) = VNil"
  using C10_WithValue_nil_value [of "KComparable 7" "valueCtx emptyCtx (KComparable 7) (VAny 5)" VNil]
  by simp

subsection \<open>parentCancelCtx\<close>

text \<open>
  C3, as the code has it.  \<^verbatim>\<open>parentCancelCtx\<close> answers "not found" when \<^verbatim>\<open>parent.Done()\<close>
  is nil or is the shared channel \<^verbatim>\<open>closedchan\<close>.  Otherwise it finds a node exactly when
  \<^verbatim>\<open>parent.Value(&cancelCtxKey)\<close> is a \<^verbatim>\<open>*cancelCtx\<close> whose own \<^verbatim>\<open>done\<close> holds the channel
  that \<^verbatim>\<open>parent.Done()\<close> returned, and that node is its answer.  (A channel that an observer
  created and \<^verbatim>\<open>cancel\<close> closed later is not \<^verbatim>\<open>closedchan\<close>.)
\<close>

theorem C3_parentCancelCtx_found_iff:
  assumes "parentCancelCtx s parent = Inr (s', r)"
  shows "\<exists>dn. Done s parent = Inr (s', dn)
           \<and> ((dn = None \<or> dn = Some closedchan) \<longrightarrow> r = None)
           \<and> (\<forall>p. r = Some p \<longleftrightarrow>
                  dn \<noteq> None \<and> dn \<noteq> Some closedchan
                  \<and> Value parent cancelCtxKeyAddr = VCancelCtx p
                  \<and> done_ch (cells s' ! p) = dn)"
  using assms
  by (auto simp: parentCancelCtx_def split: sum.splits prod.splits if_splits val.splits)

theorem C3_witness:
  "parentCancelCtx st_observed (cancelCtx emptyCtx 0) = Inr (st_observed, Some 0)
   \<and> (\<exists>dn. Done st_observed (cancelCtx emptyCtx 0) = Inr (st_observed, dn)
          \<and> ((dn = None \<or> dn = Some closedchan) \<longrightarrow> Some (0::nat) = None)
          \<and> (\<forall>p. Some 0 = Some p \<longleftrightarrow>
                 dn \<noteq> None \<and> dn \<noteq> Some closedchan
                 \<and> Value (cancelCtx emptyCtx 0) cancelCtxKeyAddr = VCancelCtx p
                 \<and> done_ch (cells st_observed ! p) = dn))"
proof -
  have run: "parentCancelCtx st_observed (cancelCtx emptyCtx 0) = Inr (st_observed, Some 0)"
    by (simp add: parentCancelCtx_def cancelCtx_Done_def st_observed_def init_state_def
        new_cell_def)
  show ?thesis
    using run C3_parentCancelCtx_found_iff [OF run] by simp
qed

text \<open>
  C3 as stated fails for a done channel that is closed but is not \<^verbatim>\<open>closedchan\<close>:
  after \<^verbatim>\<open>ctx, cancel := WithCancel(Background())\<close>, \<^verbatim>\<open>ctx.Done()\<close> and \<^verbatim>\<open>cancel()\<close>, the
  channel of \<^verbatim>\<open>ctx\<close> is closed, and \<^verbatim>\<open>parentCancelCtx(ctx)\<close> finds \<^verbatim>\<open>ctx\<close>.
\<close>

theorem C3_counterexample:
  "WithCancel init_state (Some emptyCtx) =
     Inr (st_fresh, cancelCtx emptyCtx 0, CancelFunc (cancelCtx emptyCtx 0) True Canceled)
   \<and> Done st_fresh (cancelCtx emptyCtx 0) = Inr (st_observed, Some (Chan 0))
   \<and> call_CancelFunc st_observed (CancelFunc (cancelCtx emptyCtx 0) True Canceled) =
       Inr st_observed_canceled
   \<and> Done st_observed_canceled (cancelCtx emptyCtx 0) = Inr (st_observed_canceled, Some (Chan 0))
   \<and> is_closed st_observed_canceled (Chan 0)
   \<and> parentCancelCtx st_observed_canceled (cancelCtx emptyCtx 0) =
       Inr (st_observed_canceled, Some 0)"
  by (simp add: WithCancel_def alloc_cell_def propagateCancel_def cancel_def
      cancelCtx_cancel.simps
      signal_done_def removeChild_def parentCancelCtx_def cancelCtx_Done_def upd_cell_def child_list_def Let_def
      st_fresh_def st_observed_def st_observed_canceled_def init_state_def new_cell_def)

subsection \<open>The first cancel wins\<close>

text \<open>
  C1.  Let \<open>c\<close> be a cancelable node or a deadline node whose error is not set.  When
  \<^verbatim>\<open>c.cancel(rm, e)\<close> with an error \<open>e\<close> that is not nil returns, the error of the node is
  \<open>e\<close>, its done channel is stored and its child set is nil.  In every state in which the
  node has this shape (error set, channel stored, no children), a call of \<^verbatim>\<open>c.cancel\<close>
  with any arguments, as the explicit trigger, a canceled ancestor or the timer makes
  it, leaves the error, the done channel and the child set of the node as they are; on a
  plain cancelable node it leaves the whole state as it is.  On a well-formed state
  the call returns.
\<close>

theorem C1_first_cancel_wins:
  assumes "c = cancelCtx parent a \<or> c = timerCtx parent a d"
    and "err (cells s ! a) = None"
    and "cancel s c rm (Some e) = Inr s1"
  shows "err (cells s1 ! a) = Some e \<and> done_ch (cells s1 ! a) \<noteq> None
       \<and> children (cells s1 ! a) = None
       \<and> (\<forall>t rm' e' t'.
             err (cells t ! a) \<noteq> None \<and> done_ch (cells t ! a) \<noteq> None
             \<and> children (cells t ! a) = None \<and> cancel t c rm' (Some e') = Inr t' \<longrightarrow>
               err (cells t' ! a) = err (cells t ! a)
             \<and> done_ch (cells t' ! a) = done_ch (cells t ! a)
             \<and> children (cells t' ! a) = children (cells t ! a)
             \<and> (c = cancelCtx parent a \<longrightarrow> t' = t))
       \<and> (wf_state s \<and> ctx_ok (length (cells s)) c \<longrightarrow>
            (\<exists>u. cancel s c rm (Some e) = Inr u))"
proof -
  note f = first_cancel_node [OF assms(1) assms(3) [unfolded cancel_def] assms(2)]
  have cell: "cell_of c = Some a" using assms(1) by auto
  have ret: "wf_state s \<and> ctx_ok (length (cells s)) c \<longrightarrow>
      (\<exists>u. cancel s c rm (Some e) = Inr u)"
    using cell by (auto intro: cancel_returns)
  have dn: "done_ch (cells s1 ! a) \<noteq> None"
  proof (cases "done_ch (cells s ! a)")
    case None
    with f(6) show ?thesis by simp
  next
    case (Some x)
    with f(7) [of x] show ?thesis by simp
  qed
  have later: "\<forall>t rm' e' t'.
             err (cells t ! a) \<noteq> None \<and> done_ch (cells t ! a) \<noteq> None
             \<and> children (cells t ! a) = None \<and> cancel t c rm' (Some e') = Inr t' \<longrightarrow>
               err (cells t' ! a) = err (cells t ! a)
             \<and> done_ch (cells t' ! a) = done_ch (cells t ! a)
             \<and> children (cells t' ! a) = children (cells t ! a)
             \<and> (c = cancelCtx parent a \<longrightarrow> t' = t)"
    using later_cancel_node [OF assms(1)] unfolding cancel_def by blast
  show ?thesis using f(4,5) dn later ret by blast
qed

theorem C1_witness:
  "err (cells st_observed ! 0) = None
   \<and> wf_state st_observed \<and> ctx_ok (length (cells st_observed)) (cancelCtx emptyCtx 0)
   \<and> cancel st_observed (cancelCtx emptyCtx 0) True (Some Canceled) = Inr st_observed_canceled
   \<and> err (cells st_observed_canceled ! 0) = Some Canceled
   \<and> cancel st_observed_canceled (cancelCtx emptyCtx 0) True (Some DeadlineExceeded) =
       Inr st_observed_canceled"
proof -
  have live: "err (cells st_observed ! 0) = None"
    by (simp add: st_observed_def init_state_def new_cell_def)
  have first: "cancel st_observed (cancelCtx emptyCtx 0) True (Some Canceled) =
      Inr st_observed_canceled"
    by (simp add: cancel_def cancelCtx_cancel.simps signal_done_def removeChild_def
        parentCancelCtx_def cancelCtx_Done_def upd_cell_def child_list_def Let_def
        st_observed_def st_observed_canceled_def init_state_def new_cell_def)
  have second: "cancel st_observed_canceled (cancelCtx emptyCtx 0) True (Some DeadlineExceeded) =
      Inr st_observed_canceled"
    by (simp add: cancel_def cancelCtx_cancel.simps st_observed_canceled_def init_state_def
        new_cell_def)
  have kind: "cancelCtx emptyCtx 0 = cancelCtx emptyCtx 0 \<or> cancelCtx emptyCtx 0 = timerCtx emptyCtx 0 0"
    by simp
  have wf: "wf_state st_observed"
    and ok: "ctx_ok (length (cells st_observed)) (cancelCtx emptyCtx 0)"
    by (simp_all add: wf_state_def kids_ok_def timers_ok_def chans_ok_def child_list_def
        st_observed_def init_state_def new_cell_def)
  have "err (cells st_observed_canceled ! 0) = Some Canceled"
    using C1_first_cancel_wins [OF kind live first] by (rule conjunct1)
  with live wf ok first second show ?thesis by (intro conjI)
qed

subsection \<open>The done channel of a canceled node\<close>

text \<open>
  C9.  Let \<open>c\<close> be a cancelable node or a deadline node whose error is not set, and let
  \<^verbatim>\<open>c.cancel\<close> return.  If no channel was stored in \<^verbatim>\<open>done\<close> before (nobody had called
  \<^verbatim>\<open>Done()\<close>), \<^verbatim>\<open>closedchan\<close> is stored, and \<^verbatim>\<open>Done()\<close> called afterwards returns \<^verbatim>\<open>closedchan\<close>,
  which is closed, and changes nothing.  If a channel was stored before, the same
  channel is still stored, it is closed now, and \<^verbatim>\<open>Done()\<close> returns it.  On a well-formed
  state \<^verbatim>\<open>c.cancel\<close> returns.
\<close>

theorem C9_done_after_cancel:
  assumes "c = cancelCtx parent a \<or> c = timerCtx parent a d"
    and "err (cells s ! a) = None"
    and "cancel s c rm (Some e) = Inr s'"
  shows "(done_ch (cells s ! a) = None \<longrightarrow>
            done_ch (cells s' ! a) = Some closedchan
          \<and> Done s' c = Inr (s', Some closedchan) \<and> is_closed s' closedchan)
       \<and> (\<forall>dn. done_ch (cells s ! a) = Some dn \<longrightarrow>
            done_ch (cells s' ! a) = Some dn
          \<and> Done s' c = Inr (s', Some dn) \<and> is_closed s' dn)
       \<and> (wf_state s \<and> ctx_ok (length (cells s)) c \<longrightarrow>
            (\<exists>u. cancel s c rm (Some e) = Inr u))"
proof -
  note f = first_cancel_node [OF assms(1) assms(3) [unfolded cancel_def] assms(2)]
  have cell: "cell_of c = Some a" using assms(1) by auto
  have 3: "wf_state s \<and> ctx_ok (length (cells s)) c \<longrightarrow>
      (\<exists>u. cancel s c rm (Some e) = Inr u)"
    using cell by (auto intro: cancel_returns)
  have a: "a < length (cells s')" using f(1,2) by simp
  have 1: "done_ch (cells s ! a) = None \<longrightarrow>
            done_ch (cells s' ! a) = Some closedchan
          \<and> Done s' c = Inr (s', Some closedchan) \<and> is_closed s' closedchan"
    using f(6) Done_canceler_stored [OF assms(1) a] by simp
  have 2: "\<forall>dn. done_ch (cells s ! a) = Some dn \<longrightarrow>
            done_ch (cells s' ! a) = Some dn
          \<and> Done s' c = Inr (s', Some dn) \<and> is_closed s' dn"
    using f(7) Done_canceler_stored [OF assms(1) a] by blast
  from 1 2 3 show ?thesis by (intro conjI)
qed

theorem C9_witness:
  "err (cells st_fresh ! 0) = None \<and> done_ch (cells st_fresh ! 0) = None
   \<and> wf_state st_fresh \<and> ctx_ok (length (cells st_fresh)) (cancelCtx emptyCtx 0)
   \<and> cancel st_fresh (cancelCtx emptyCtx 0) True (Some Canceled) = Inr st_fresh_canceled
   \<and> Done st_fresh_canceled (cancelCtx emptyCtx 0) = Inr (st_fresh_canceled, Some closedchan)
   \<and> is_closed st_fresh_canceled closedchan"
proof -
  have live: "err (cells st_fresh ! 0) = None" and nodone: "done_ch (cells st_fresh ! 0) = None"
    by (simp_all add: st_fresh_def init_state_def new_cell_def)
  have run: "cancel st_fresh (cancelCtx emptyCtx 0) True (Some Canceled) = Inr st_fresh_canceled"
    by (simp add: cancel_def cancelCtx_cancel.simps signal_done_def removeChild_def
        parentCancelCtx_def cancelCtx_Done_def upd_cell_def child_list_def Let_def
        st_fresh_def st_fresh_canceled_def init_state_def new_cell_def)
  have kind: "cancelCtx emptyCtx 0 = cancelCtx emptyCtx 0 \<or> cancelCtx emptyCtx 0 = timerCtx emptyCtx 0 0"
    by simp
  have "done_ch (cells st_fresh ! 0) = None \<longrightarrow>
            done_ch (cells st_fresh_canceled ! 0) = Some closedchan
          \<and> Done st_fresh_canceled (cancelCtx emptyCtx 0) = Inr (st_fresh_canceled, Some closedchan)
          \<and> is_closed st_fresh_canceled closedchan"
    using C9_done_after_cancel [OF kind live run] by (rule conjunct1)
  moreover have "wf_state st_fresh"
    and "ctx_ok (length (cells st_fresh)) (cancelCtx emptyCtx 0)"
    by (simp_all add: wf_state_def kids_ok_def timers_ok_def chans_ok_def child_list_def
        st_fresh_def init_state_def new_cell_def)
  ultimately show ?thesis using live nodone run by simp
qed

subsection \<open>A deadline node canceled before its deadline\<close>

text \<open>
  C7.  Let a deadline node be live (no error set) with its timer armed, and let its
  explicit trigger \<^verbatim>\<open>c.cancel(true, Canceled)\<close> return.  Then \<^verbatim>\<open>Err()\<close> is \<^verbatim>\<open>Canceled\<close>, the
  field \<^verbatim>\<open>timer\<close> is nil and the timer it held is stopped, so that the runtime never runs
  its function.  Even if the function of the timer, \<^verbatim>\<open>c.cancel(true, DeadlineExceeded)\<close>,
  runs afterwards, \<^verbatim>\<open>Err()\<close> is still \<^verbatim>\<open>Canceled\<close>.  On a well-formed state the trigger
  returns.
\<close>

theorem C7_canceled_before_deadline:
  assumes "err (cells s ! a) = None" and "timer (cells s ! a) = Some t"
    and "call_CancelFunc s (CancelFunc (timerCtx parent a d) True Canceled) = Inr s1"
  shows "Err s1 (timerCtx parent a d) = Inr (Some Canceled)
       \<and> timer (cells s1 ! a) = None
       \<and> t < length (timers s1) \<and> \<not> active (timers s1 ! t)
       \<and> timer_fires s1 t = Inr s1
       \<and> (\<forall>s2. call_CancelFunc s1 (CancelFunc (timerCtx parent a d) True DeadlineExceeded) = Inr s2
             \<longrightarrow> Err s2 (timerCtx parent a d) = Inr (Some Canceled))
       \<and> (wf_state s \<and> ctx_ok (length (cells s)) (timerCtx parent a d) \<longrightarrow>
            (\<exists>u. call_CancelFunc s (CancelFunc (timerCtx parent a d) True Canceled) = Inr u))"
proof -
  let ?c = "timerCtx parent a d"
  have 6: "wf_state s \<and> ctx_ok (length (cells s)) ?c \<longrightarrow>
      (\<exists>u. call_CancelFunc s (CancelFunc ?c True Canceled) = Inr u)"
    using cancel_returns [of s ?c a True Canceled] by simp
  have kind: "?c = cancelCtx parent a \<or> ?c = timerCtx parent a d" by simp
  have run: "cancel_fuel (Suc (length (cells s))) s ?c True (Some Canceled) = Inr s1"
    using assms(3) by (simp add: cancel_def)
  note f = first_cancel_node [OF kind run assms(1)]
  have a1: "a < length (cells s1)" using f(1,2) by simp
  have er: "err (cells s1 ! a) = Some Canceled" using f(4) by simp
  have 1: "Err s1 ?c = Inr (Some Canceled)" using a1 er by simp
  have 2: "timer (cells s1 ! a) = None" using run by (rule cancel_fuel_timer_released)
  have ev: "evolves (Some Canceled) s s1" using run by (rule cancel_evolves(1))
  have 3: "t < length (timers s1) \<and> \<not> active (timers s1 ! t)"
    using ev f(1) assms(2) 2 by (rule evolves_timer_stopped)
  have 4: "timer_fires s1 t = Inr s1" using 3 by (simp add: timer_fires_def)
  have 5: "\<forall>s2. call_CancelFunc s1 (CancelFunc ?c True DeadlineExceeded) = Inr s2
             \<longrightarrow> Err s2 ?c = Inr (Some Canceled)"
  proof (intro allI impI)
    fix s2 assume "call_CancelFunc s1 (CancelFunc ?c True DeadlineExceeded) = Inr s2"
    then have "cancel_fuel (Suc (length (cells s1))) s1 ?c True (Some DeadlineExceeded) = Inr s2"
      by (simp add: cancel_def)
    then have ev2: "evolves (Some DeadlineExceeded) s1 s2" by (rule cancel_evolves(1))
    have "err (cells s2 ! a) = Some Canceled" using ev2 a1 er by (rule evolves_err_Some)
    moreover have "a < length (cells s2)" using a1 evolves_length [OF ev2] by simp
    ultimately show "Err s2 ?c = Inr (Some Canceled)" by simp
  qed
  from 1 2 3 4 5 6 show ?thesis by blast
qed

theorem C7_witness:
  "err (cells st_deadline ! 0) = None \<and> timer (cells st_deadline ! 0) = Some 0
   \<and> wf_state st_deadline \<and> ctx_ok (length (cells st_deadline)) (timerCtx emptyCtx 0 10)
   \<and> call_CancelFunc st_deadline (CancelFunc (timerCtx emptyCtx 0 10) True Canceled) =
       Inr st_deadline_canceled
   \<and> Err st_deadline_canceled (timerCtx emptyCtx 0 10) = Inr (Some Canceled)
   \<and> timer (cells st_deadline_canceled ! 0) = None
   \<and> \<not> active (timers st_deadline_canceled ! 0)"
proof -
  have live: "err (cells st_deadline ! 0) = None"
    and armed: "timer (cells st_deadline ! 0) = Some 0"
    by (simp_all add: st_deadline_def init_state_def new_cell_def)
  have run: "call_CancelFunc st_deadline (CancelFunc (timerCtx emptyCtx 0 10) True Canceled) =
      Inr st_deadline_canceled"
    by (simp add: cancel_def cancelCtx_cancel.simps signal_done_def removeChild_def
        parentCancelCtx_def stop_timer_def upd_cell_def child_list_def Let_def
        st_deadline_def st_deadline_canceled_def init_state_def new_cell_def)
  note w = C7_canceled_before_deadline [OF live armed run]
  have "Err st_deadline_canceled (timerCtx emptyCtx 0 10) = Inr (Some Canceled)"
    and "timer (cells st_deadline_canceled ! 0) = None"
    and "\<not> active (timers st_deadline_canceled ! 0)"
    using w by blast+
  moreover have "wf_state st_deadline"
    and "ctx_ok (length (cells st_deadline)) (timerCtx emptyCtx 0 10)"
    by (simp_all add: wf_state_def kids_ok_def timers_ok_def chans_ok_def child_list_def
        st_deadline_def init_state_def new_cell_def)
  ultimately show ?thesis using live armed run by (intro conjI)
qed

subsection \<open>A child of a parent that is canceled already\<close>

text \<open>
  C8.  \<^verbatim>\<open>WithCancel\<close> and \<^verbatim>\<open>WithDeadline\<close> allocate the new node and call
  \<^verbatim>\<open>propagateCancel(parent, child)\<close>; the cell of the child is then as \<^verbatim>\<open>newCancelCtx\<close> left
  it, at an address that does not occur in the parent.  If the parent is canceled at
  that time with cause \<open>e\<close> (a receive from \<^verbatim>\<open>parent.Done()\<close> succeeds and \<^verbatim>\<open>parent.Err()\<close> is
  \<open>e\<close>, or \<^verbatim>\<open>parentCancelCtx\<close> finds an ancestor whose \<^verbatim>\<open>err\<close> is \<open>e\<close>), then
  \<^verbatim>\<open>propagateCancel\<close> is the call \<^verbatim>\<open>child.cancel(false, e)\<close>; the call returns, and all it
  changes is the cell of the child, whose error is \<open>e\<close> afterwards.
\<close>

theorem C8_child_of_canceled_parent:
  assumes "child = cancelCtx parent a \<or> child = timerCtx parent a d"
    and "a < length (cells s)" and "cells s ! a = new_cell" and "a \<notin> addrs parent"
    and "canceled_cause s parent = Some e"
  shows "propagateCancel s parent child = cancel (linking_state s parent) child False (Some e)
       \<and> propagateCancel s parent child =
           Inr (upd_cell a (\<lambda>x. x\<lparr>done_ch := Some closedchan, err := Some e\<rparr>)
                  (linking_state s parent))
       \<and> Err (upd_cell a (\<lambda>x. x\<lparr>done_ch := Some closedchan, err := Some e\<rparr>)
                (linking_state s parent)) child = Inr (Some e)"
proof -
  let ?t = "linking_state s parent"
  have len: "length (cells ?t) = length (cells s)"
    using evolves_linking_state [of None s parent] by (rule evolves_length)
  have a: "a < length (cells ?t)" using assms(2) len by simp
  have new: "cells ?t ! a = new_cell"
    using linking_state_other_cell [OF assms(4) assms(2)] assms(3) by simp
  have 1: "propagateCancel s parent child = cancel ?t child False (Some e)"
    using assms(5) by (rule propagateCancel_canceled)
  have 2: "cancel ?t child False (Some e) =
      Inr (upd_cell a (\<lambda>x. x\<lparr>done_ch := Some closedchan, err := Some e\<rparr>) ?t)"
    using assms(1) a new by (rule cancel_new_cell)
  have 3: "Err (upd_cell a (\<lambda>x. x\<lparr>done_ch := Some closedchan, err := Some e\<rparr>) ?t) child =
      Inr (Some e)"
    using assms(1) a by (auto simp: nth_cells_upd_cell)
  from 1 2 3 show ?thesis by simp
qed

theorem C8_witness:
  "1 < length (cells (alloc_cell st_fresh_canceled))
   \<and> cells (alloc_cell st_fresh_canceled) ! 1 = new_cell
   \<and> 1 \<notin> addrs (cancelCtx emptyCtx 0)
   \<and> canceled_cause (alloc_cell st_fresh_canceled) (cancelCtx emptyCtx 0) = Some Canceled
   \<and> propagateCancel (alloc_cell st_fresh_canceled) (cancelCtx emptyCtx 0)
         (cancelCtx (cancelCtx emptyCtx 0) 1) = Inr st_canceled_parent_child
   \<and> Err st_canceled_parent_child (cancelCtx (cancelCtx emptyCtx 0) 1) = Inr (Some Canceled)"
proof -
  let ?s = "alloc_cell st_fresh_canceled"
  let ?p = "cancelCtx emptyCtx 0"
  have kind: "cancelCtx ?p 1 = cancelCtx ?p 1 \<or> cancelCtx ?p 1 = timerCtx ?p 1 0" by simp
  have a: "1 < length (cells ?s)" and new: "cells ?s ! 1 = new_cell"
    by (simp_all add: alloc_cell_def st_fresh_canceled_def init_state_def)
  have fresh: "1 \<notin> addrs ?p" by simp
  have cause: "canceled_cause ?s ?p = Some Canceled"
    by (simp add: canceled_cause_def cancelCtx_Done_def alloc_cell_def st_fresh_canceled_def
        init_state_def new_cell_def)
  have link: "linking_state ?s ?p = ?s"
    by (simp add: linking_state_def cancelCtx_Done_def alloc_cell_def st_fresh_canceled_def
        init_state_def new_cell_def)
  have res: "upd_cell 1 (\<lambda>x. x\<lparr>done_ch := Some closedchan, err := Some Canceled\<rparr>) ?s =
      st_canceled_parent_child"
    by (simp add: upd_cell_def alloc_cell_def st_fresh_canceled_def st_canceled_parent_child_def
        init_state_def new_cell_def)
  note w = C8_child_of_canceled_parent [OF kind a new fresh cause, unfolded link res]
  from w have "propagateCancel ?s ?p (cancelCtx ?p 1) = Inr st_canceled_parent_child"
    and "Err st_canceled_parent_child (cancelCtx ?p 1) = Inr (Some Canceled)"
    by blast+
  with a new fresh cause show ?thesis by (intro conjI)
qed

subsection \<open>WithDeadline with a deadline that has passed\<close>

text \<open>
  C6, as the code has it.  Let \<^verbatim>\<open>WithDeadline(parent, d)\<close> be called when the time \<open>d\<close>
  has passed, with a parent whose deadline is not earlier than \<open>d\<close>, and let it return.
  The node returned is a deadline node in a new cell, its field \<^verbatim>\<open>timer\<close> is nil and no
  timer has been created.  Its \<^verbatim>\<open>Err()\<close> is not nil: it is the cause of the parent when
  \<^verbatim>\<open>propagateCancel\<close> found the parent canceled, and \<^verbatim>\<open>DeadlineExceeded\<close> otherwise.
\<close>

theorem C6_deadline_already_passed:
  assumes "WithDeadline s now (Some parent) d = Inr (s', c, f)"
    and "\<not> (\<exists>cur. Deadline parent = Some cur \<and> cur < d)"
    and "d \<le> now"
  shows "c = timerCtx parent (length (cells s)) d
       \<and> timer (cells s' ! length (cells s)) = None
       \<and> length (timers s') = length (timers s)
       \<and> Err s' c =
           Inr (Some (case canceled_cause (alloc_cell s) parent of
                        None \<Rightarrow> DeadlineExceeded
                      | Some e \<Rightarrow> e))"
proof -
  let ?a = "length (cells s)"
  let ?c = "timerCtx parent ?a d"
  let ?s1 = "alloc_cell s"
  have nodl: "(case Deadline parent of None \<Rightarrow> False | Some cur \<Rightarrow> cur < d) = False"
    using assms(2) by (auto split: option.splits)
  from assms(1) nodl assms(3) obtain s2 where
    pc: "propagateCancel ?s1 parent ?c = Inr s2" and
    cn: "cancel s2 ?c True (Some DeadlineExceeded) = Inr s'" and
    c: "c = ?c"
    by (auto simp: WithDeadline_def Let_def split: sum.splits)
  have kind: "?c = cancelCtx parent ?a \<or> ?c = timerCtx parent ?a d" by simp
  have a1: "?a < length (cells ?s1)" and live1: "err (cells ?s1 ! ?a) = None"
    by (simp_all add: alloc_cell_cells new_cell_def)
  note cn' = cn [unfolded cancel_def]
  have ev23: "evolves (Some DeadlineExceeded) s2 s'" using cn' by (rule cancel_evolves(1))
  have tm: "timer (cells s' ! ?a) = None" using cn' by (rule cancel_fuel_timer_released)
  show ?thesis
  proof (cases "canceled_cause ?s1 parent")
    case None
    have ev12: "evolves None ?s1 s2" using None pc by (rule propagateCancel_not_canceled)
    have l2: "length (cells s2) = length (cells ?s1)" using ev12 by (rule evolves_length)
    have live2: "err (cells s2 ! ?a) = None"
      using ev12 a1 live1 by (auto simp: evolves_def cell_evolves_def)
    note f = first_cancel_node [OF kind cn' live2]
    have "Err s' ?c = Inr (Some DeadlineExceeded)" using f(1,2,4) by simp
    moreover have "length (timers s') = length (timers s)"
      using ev12 ev23 by (simp add: evolves_def alloc_cell_cells)
    ultimately show ?thesis using None c tm by simp
  next
    case (Some e)
    have pc': "propagateCancel ?s1 parent ?c = cancel (linking_state ?s1 parent) ?c False (Some e)"
      using Some by (rule propagateCancel_canceled)
    let ?t = "linking_state ?s1 parent"
    have evl: "evolves None ?s1 ?t" by (rule evolves_linking_state)
    have lt: "length (cells ?t) = length (cells ?s1)" using evl by (rule evolves_length)
    have livet: "err (cells ?t ! ?a) = None"
      using evl a1 live1 by (auto simp: evolves_def cell_evolves_def)
    have run: "cancel_fuel (Suc (length (cells ?t))) ?t ?c False (Some e) = Inr s2"
      using pc pc' by (simp add: cancel_def)
    note f = first_cancel_node [OF kind run livet]
    have evt2: "evolves (Some e) ?t s2" using run by (rule cancel_evolves(1))
    have a2: "?a < length (cells s2)" using f(2) lt a1 by simp
    have "err (cells s' ! ?a) = Some e"
      using ev23 a2 f(4) by (rule evolves_err_Some)
    moreover have "?a < length (cells s')" using a2 evolves_length [OF ev23] by simp
    ultimately have "Err s' ?c = Inr (Some e)" by simp
    moreover have "length (timers s') = length (timers s)"
      using evl evt2 ev23 by (simp add: evolves_def alloc_cell_cells)
    ultimately show ?thesis using Some c tm by simp
  qed
qed

theorem C6_witness:
  "WithDeadline st_fresh 10 (Some (cancelCtx emptyCtx 0)) 5 =
     Inr (st_past_deadline, timerCtx (cancelCtx emptyCtx 0) 1 5,
          CancelFunc (timerCtx (cancelCtx emptyCtx 0) 1 5) False Canceled)
   \<and> \<not> (\<exists>cur. Deadline (cancelCtx emptyCtx 0) = Some cur \<and> cur < 5)
   \<and> (5::int) \<le> 10
   \<and> canceled_cause (alloc_cell st_fresh) (cancelCtx emptyCtx 0) = None
   \<and> timer (cells st_past_deadline ! 1) = None
   \<and> Err st_past_deadline (timerCtx (cancelCtx emptyCtx 0) 1 5) = Inr (Some DeadlineExceeded)"
proof -
  let ?p = "cancelCtx emptyCtx 0"
  have run: "WithDeadline st_fresh 10 (Some ?p) 5 =
     Inr (st_past_deadline, timerCtx ?p 1 5, CancelFunc (timerCtx ?p 1 5) False Canceled)"
    by (simp add: WithDeadline_def alloc_cell_def propagateCancel_def cancelCtx_Done_def
        parentCancelCtx_def cancel_def cancelCtx_cancel.simps signal_done_def removeChild_def
        stop_timer_def upd_cell_def child_list_def Let_def
        st_fresh_def st_past_deadline_def init_state_def new_cell_def)
  have nodl: "\<not> (\<exists>cur. Deadline ?p = Some cur \<and> cur < 5)" by simp
  have past: "(5::int) \<le> 10" by simp
  have cause: "canceled_cause (alloc_cell st_fresh) ?p = None"
    by (simp add: canceled_cause_def cancelCtx_Done_def parentCancelCtx_def alloc_cell_def
        upd_cell_def Let_def st_fresh_def init_state_def new_cell_def)
  have len: "length (cells st_fresh) = 1" by (simp add: st_fresh_def init_state_def)
  note w = C6_deadline_already_passed [OF run nodl past, unfolded cause len]
  from w have "timer (cells st_past_deadline ! 1) = None"
    and "Err st_past_deadline (timerCtx ?p 1 5) = Inr (Some DeadlineExceeded)"
    by simp_all
  with run nodl past cause show ?thesis by (intro conjI)
qed

text \<open>
  C6 as stated fails when the parent is canceled already: after
  \<^verbatim>\<open>parent, cancel := WithCancel(Background())\<close> and \<^verbatim>\<open>cancel()\<close>, the node that
  \<^verbatim>\<open>WithDeadline(parent, 5)\<close> returns at time 10 has \<^verbatim>\<open>Err() = Canceled\<close>.
\<close>

theorem C6_counterexample:
  "WithCancel init_state (Some emptyCtx) =
     Inr (st_fresh, cancelCtx emptyCtx 0, CancelFunc (cancelCtx emptyCtx 0) True Canceled)
   \<and> call_CancelFunc st_fresh (CancelFunc (cancelCtx emptyCtx 0) True Canceled) =
       Inr st_fresh_canceled
   \<and> Deadline (cancelCtx emptyCtx 0) = None
   \<and> WithDeadline st_fresh_canceled 10 (Some (cancelCtx emptyCtx 0)) 5 =
       Inr (st_canceled_parent_child, timerCtx (cancelCtx emptyCtx 0) 1 5,
            CancelFunc (timerCtx (cancelCtx emptyCtx 0) 1 5) False Canceled)
   \<and> Err st_canceled_parent_child (timerCtx (cancelCtx emptyCtx 0) 1 5) = Inr (Some Canceled)
   \<and> Canceled \<noteq> DeadlineExceeded"
  by (simp add: WithCancel_def WithDeadline_def alloc_cell_def propagateCancel_def
      cancelCtx_Done_def parentCancelCtx_def cancel_def cancelCtx_cancel.simps signal_done_def
      removeChild_def stop_timer_def upd_cell_def child_list_def Let_def
      st_fresh_def st_fresh_canceled_def st_canceled_parent_child_def init_state_def new_cell_def)

subsection \<open>Cancel reaches every tracked descendant\<close>



end
